theory Spec2Isabelle
  imports Main "HOL-Library.Char_ord" "HOL-Library.List_Lexorder"
begin

text \<open>
  Quick Alias (\<open>main.js\<close>), an Obsidian plugin: when a note whose name matches a
  configured pattern is opened or modified, the plugin scans it for links of the form
  \<open>[[target|alias]]\<close> and merges the aliases into the frontmatter of each target note.

  The embedding follows the source function by function and keeps its names. A function
  that can throw returns \<open>error + 'a\<close>, or the error (if any) with the state it leaves.
  What the plugin reads from and does to its host is one record, \<open>state\<close>. Two things are
  idealised: an \<open>async\<close> call runs to its end where it is made (no other event comes
  between its \<open>await\<close>s), and a timer runs at the moment it is due.
\<close>

section \<open>Strings\<close>

text \<open>
  A JavaScript string is a sequence of UTF-16 code units. The model uses \<open>string\<close>, so a
  \<open>char\<close> stands for a code unit below 256 (the Latin-1 range); on that range
  \<open>toLowerCase\<close>, \<open>trim\<close> and the regular expression's \<open>.\<close> act unit by unit, as
  written below. The order on strings is the one of \<open>Array.prototype.sort\<close> without a
  comparator: lexicographic on code units, a proper prefix first.
\<close>

definition toLowerCase_unit :: "char \<Rightarrow> char" where
  "toLowerCase_unit c =
     (let n = (of_char c :: nat)
      in if (65 \<le> n \<and> n \<le> 90) \<or> (192 \<le> n \<and> n \<le> 222 \<and> n \<noteq> 215)
         then char_of (n + 32) else c)"

definition toLowerCase :: "string \<Rightarrow> string" where
  "toLowerCase s = map toLowerCase_unit s"

definition whiteSpace :: "char \<Rightarrow> bool" where
  \<comment> \<open>TAB, LF, VT, FF, CR, SP and NBSP: what \<open>trim\<close> strips below code unit 256\<close>
  "whiteSpace c = ((of_char c :: nat) \<in> {9, 10, 11, 12, 13, 32, 160})"

definition trim :: "string \<Rightarrow> string" where
  "trim s = rev (dropWhile whiteSpace (rev (dropWhile whiteSpace s)))"

definition lineTerminator :: "char \<Rightarrow> bool" where
  \<comment> \<open>LF and CR: the code units below 256 that \<open>.\<close> does not match\<close>
  "lineTerminator c = ((of_char c :: nat) \<in> {10, 13})"

section \<open>The link pattern\<close>

text \<open>
  \<^verbatim>\<open>/\[\[(.*?)(?:\|(.*?))?\]\]/g\<close>, as a backtracking matcher runs it.

  \<open>match_close\<close> is \<^verbatim>\<open>(.*?)\]\]\<close>: the lazy group first tries the closing brackets
  and only then takes one more unit, which must not be a line terminator.
  \<open>match_tail\<close> is \<^verbatim>\<open>(.*?)(?:\|(.*?))?\]\]\<close>: at each length of the first group the
  optional part is tried first, then the closing brackets without it, and only then
  the first group grows. Both return the captures and the text after the match.
\<close>

fun match_close :: "string \<Rightarrow> (string \<times> string) option" where
  "match_close [] = None"
| "match_close (c # cs) =
     (if c = CHR '']'' \<and> cs \<noteq> [] \<and> hd cs = CHR '']'' then Some ([], tl cs)
      else if lineTerminator c then None
      else (case match_close cs of
              None \<Rightarrow> None
            | Some (g, r) \<Rightarrow> Some (c # g, r)))"

fun match_tail :: "string \<Rightarrow> (string \<times> string option \<times> string) option" where
  "match_tail [] = None"
| "match_tail (c # cs) =
     (case (if c = CHR ''|'' then match_close cs else None) of
        Some (a, r) \<Rightarrow> Some ([], Some a, r)
      | None \<Rightarrow>
          if c = CHR '']'' \<and> cs \<noteq> [] \<and> hd cs = CHR '']'' then Some ([], None, tl cs)
          else if lineTerminator c then None
          else (case match_tail cs of
                  None \<Rightarrow> None
                | Some (g, a, r) \<Rightarrow> Some (c # g, a, r)))"

fun match_here :: "string \<Rightarrow> (string \<times> string option \<times> string) option" where
  "match_here (c # d # cs) =
     (if c = CHR ''['' \<and> d = CHR ''['' then match_tail cs else None)"
| "match_here _ = None"

lemma match_close_shorter:
  "match_close s = Some (g, r) \<Longrightarrow> length r < length s"
proof (induction s arbitrary: g r)
  case Nil
  then show ?case by simp
next
  case (Cons c cs)
  then show ?case
    by (cases cs) (auto split: if_splits option.splits)
qed

lemma match_tail_shorter:
  "match_tail s = Some (g, a, r) \<Longrightarrow> length r < length s"
proof (induction s arbitrary: g a r)
  case Nil
  then show ?case by simp
next
  case (Cons c cs)
  then show ?case
    by (cases cs) (auto split: if_splits option.splits dest: match_close_shorter)
qed

lemma match_here_shorter:
  "match_here s = Some (g, a, r) \<Longrightarrow> length r < length s"
  by (cases s rule: match_here.cases) (auto split: if_splits dest: match_tail_shorter)

text \<open>
  The \<^verbatim>\<open>while ((match = aliasRegex.exec(content)) !== null)\<close> loop: with the \<open>g\<close> flag
  each \<open>exec\<close> searches from \<open>lastIndex\<close> for the first position where the pattern
  matches and leaves \<open>lastIndex\<close> after the match. \<open>exec_all\<close> lists the two captures
  of every match in order.
\<close>

function exec_all :: "string \<Rightarrow> (string \<times> string option) list" where
  "exec_all [] = []"
| "exec_all (c # cs) =
     (case match_here (c # cs) of
        Some (g, a, r) \<Rightarrow> (g, a) # exec_all r
      | None \<Rightarrow> exec_all cs)"
  by pat_completeness auto
termination
  by (relation "measure length") (auto dest: match_here_shorter)

section \<open>Alias extraction\<close>

datatype error = TypeError | SyntaxError | IOError

text \<open>
  \<open>aliasMap\<close> is an ordinary object created by \<^verbatim>\<open>{}\<close>: its own properties are kept
  as an association list in insertion order, and a read of a name that is not an own
  property falls through to \<open>Object.prototype\<close>. The names below are the
  properties of \<open>Object.prototype\<close>; each holds a function (or, for \<open>__proto__\<close>, the
  prototype object), which is truthy and has no \<open>add\<close> method.
\<close>

type_synonym 'v object = "(string \<times> 'v) list"

definition objectPrototype :: "string list" where
  "objectPrototype =
     [''constructor'', ''__defineGetter__'', ''__defineSetter__'', ''hasOwnProperty'',
      ''__lookupGetter__'', ''__lookupSetter__'', ''isPrototypeOf'',
      ''propertyIsEnumerable'', ''toString'', ''valueOf'', ''__proto__'',
      ''toLocaleString'']"

fun assign :: "string \<Rightarrow> 'v \<Rightarrow> 'v object \<Rightarrow> 'v object" where
  \<comment> \<open>\<^verbatim>\<open>obj[k] = v\<close> on own properties: an existing key keeps its place\<close>
  "assign k v [] = [(k, v)]"
| "assign k v ((k', v') # kvs) =
     (if k' = k then (k, v) # kvs else (k', v') # assign k v kvs)"

definition Set_add :: "'a \<Rightarrow> 'a list \<Rightarrow> 'a list" where
  \<comment> \<open>a \<open>Set\<close> as the list of its elements in insertion order\<close>
  "Set_add x xs = (if x \<in> set xs then xs else xs @ [x])"

definition Set_of :: "'a list \<Rightarrow> 'a list" where
  \<comment> \<open>\<^verbatim>\<open>new Set(xs)\<close>\<close>
  "Set_of xs = fold Set_add xs []"

definition add_match :: "string \<times> string option \<Rightarrow> string list object \<Rightarrow> error + string list object" where
  \<comment> \<open>the body of the \<open>while\<close> loop, for one match\<close>
  "add_match match aliasMap =
     (let targetNote = trim (fst match);
          alias = map_option trim (snd match)
      in case alias of
           None \<Rightarrow> Inr aliasMap
         | Some alias \<Rightarrow>
             if alias \<noteq> [] \<and> targetNote \<noteq> [] then
               (case map_of aliasMap targetNote of
                  Some aliases \<Rightarrow>
                    Inr (assign targetNote (Set_add (toLowerCase alias) aliases) aliasMap)
                | None \<Rightarrow>
                    if targetNote \<in> set objectPrototype then Inl TypeError
                    else Inr (assign targetNote (Set_add (toLowerCase alias) []) aliasMap))
             else Inr aliasMap)"

fun add_matches :: "(string \<times> string option) list \<Rightarrow> string list object \<Rightarrow> error + string list object" where
  "add_matches [] aliasMap = Inr aliasMap"
| "add_matches (match # matches) aliasMap =
     (case add_match match aliasMap of
        Inl e \<Rightarrow> Inl e
      | Inr aliasMap' \<Rightarrow> add_matches matches aliasMap')"

definition extractAliases :: "string \<Rightarrow> error + string list object" where
  "extractAliases content =
     (case add_matches (exec_all content) [] of
        Inl e \<Rightarrow> Inl e
      | Inr aliasMap \<Rightarrow> Inr (map (\<lambda>(note, aliases). (note, sort aliases)) aliasMap))"

definition aliased :: "string \<times> string option \<Rightarrow> bool" where
  \<comment> \<open>the guard \<^verbatim>\<open>if (alias && targetNote)\<close>: the match has a target and an alias\<close>
  "aliased match =
     (case snd match of
        None \<Rightarrow> False
      | Some alias \<Rightarrow> trim alias \<noteq> [] \<and> trim (fst match) \<noteq> [])"

section \<open>Alias merge\<close>

text \<open>
  The callback handed to \<open>processFrontMatter\<close>, on lists of strings:
  \<^verbatim>\<open>[...new Set([...existing.map(a => a.toLowerCase()), ...aliases])].sort()\<close>.
\<close>

definition merge_aliases :: "string list \<Rightarrow> string list \<Rightarrow> string list" where
  "merge_aliases existing aliases = sort (Set_of (map toLowerCase existing @ aliases))"

section \<open>The host\<close>

text \<open>
  What the plugin reaches through \<open>this.app\<close>, and what it leaves behind. A \<open>TFile\<close>
  object is a handle (a number): \<open>===\<close> on files is equality of handles, and a file's
  \<open>path\<close>, \<open>basename\<close> and \<open>extension\<close> are read from the handle when the code reads
  them. Times are in milliseconds.
\<close>

record TFile =
  path :: string
  basename :: string
  extension :: string

datatype fmval =
  YNull | YBool bool | YNum int | YStr string | YSeq "fmval list" | YMap "(string \<times> fmval) list"

type_synonym frontmatter = "string \<rightharpoonup> fmval"

record settings =
  fileRegex :: string
  showUpdateNotice :: bool
  debounceTimeout :: int

record stored =
  stored_fileRegex :: "string option"
  stored_showUpdateNotice :: "bool option"
  stored_debounceTimeout :: "int option"

datatype notice =
  NoticeLoaded
| NoticeUpdated nat
| NoticeError string error
| NoticeLoadFailed
| NoticeSaveFailed
| NoticeInvalidRegex
| NoticeDebounceRange
| NoticeDebounceUpdated

datatype logline =
  LogLoaded
| LogSkipped string
| ErrorProcessing string error
| ErrorFrontmatter string error
| ErrorLoading
| ErrorSaving

datatype io = Read nat | ProcessFrontMatter nat | LoadData | SaveData

record state =
  files :: "nat \<Rightarrow> TFile"
  content :: "nat \<Rightarrow> string option"
  linkpathDest :: "string \<Rightarrow> string \<Rightarrow> nat option"
  frontmatter :: "nat \<Rightarrow> frontmatter"
  fmRejects :: "nat \<Rightarrow> bool"
  activeFile :: "nat option"
  RegExp :: "string \<Rightarrow> (string \<Rightarrow> bool) option"
  data :: "stored option"
  loadRejects :: bool
  saveRejects :: bool
  settings :: settings
  registered :: "int option"
  timeout :: "nat option"
  timers :: "(nat \<times> nat \<times> nat option) list"
  nextTimer :: nat
  now :: nat
  notices :: "notice list"
  console :: "logline list"
  io :: "io list"
  calls :: "(nat \<times> nat) list"

text \<open>
  \<^item> \<open>content\<close> is \<open>vault.read\<close> (\<open>None\<close>: the read rejects); \<open>linkpathDest\<close> is
    \<open>metadataCache.getFirstLinkpathDest\<close>; \<open>activeFile\<close> is \<open>workspace.getActiveFile()\<close>.
  \<^item> \<open>RegExp s src\<close> is \<^verbatim>\<open>new RegExp(src)\<close>: \<open>None\<close> when the constructor throws a
    \<open>SyntaxError\<close>, otherwise the test whether the expression matches somewhere in a
    string (what \<^verbatim>\<open>str.match(regex)\<close> decides for a regex without the \<open>g\<close> flag).
  \<^item> \<open>data\<close> is what \<open>loadData\<close> returns (\<open>None\<close>: \<open>null\<close>), with the three settings at
    their types; \<open>loadRejects\<close> and \<open>saveRejects\<close> say that \<open>loadData\<close>, \<open>saveData\<close> reject.
  \<^item> \<open>registered\<close> is \<open>None\<close> until \<open>onload\<close> has registered the two event handlers, and
    then holds the \<open>wait\<close> captured by the debounced handler; \<open>timeout\<close> is the variable
    of that name in the closure of \<open>debounce\<close>.
  \<^item> \<open>timers\<close> are the host's pending timers (identifier, time due, argument of the
    debounced call); \<open>now\<close> is the clock.
  \<^item> \<open>notices\<close>, \<open>console\<close>, \<open>io\<close> and \<open>calls\<close> record what was shown, logged, asked of the
    vault, and each call of \<open>processFile\<close> with its time.
\<close>

section \<open>Updating the frontmatter\<close>

fun falsy :: "fmval \<Rightarrow> bool" where
  "falsy YNull = True"
| "falsy (YBool b) = (\<not> b)"
| "falsy (YNum n) = (n = 0)"
| "falsy (YStr s) = (s = [])"
| "falsy (YSeq xs) = False"
| "falsy (YMap kvs) = False"

fun strings_of :: "fmval list \<Rightarrow> error + string list" where
  \<comment> \<open>\<open>alias.toLowerCase()\<close> is a function only on a string\<close>
  "strings_of [] = Inr []"
| "strings_of (YStr s # vs) =
     (case strings_of vs of Inl e \<Rightarrow> Inl e | Inr ss \<Rightarrow> Inr (s # ss))"
| "strings_of (v # vs) = Inl TypeError"

definition existing_aliases :: "fmval option \<Rightarrow> error + string list" where
  \<comment> \<open>the strings of \<^verbatim>\<open>(frontmatter['aliases'] || [])\<close>; only an array has \<open>map\<close>\<close>
  "existing_aliases v =
     (case v of
        None \<Rightarrow> Inr []
      | Some (YSeq xs) \<Rightarrow> strings_of xs
      | Some w \<Rightarrow> if falsy w then Inr [] else Inl TypeError)"

definition update_aliases :: "string list \<Rightarrow> frontmatter \<Rightarrow> error + frontmatter" where
  \<comment> \<open>the callback of \<open>updateFrontmatter\<close>\<close>
  "update_aliases aliases fm =
     (case existing_aliases (fm ''aliases'') of
        Inl e \<Rightarrow> Inl e
      | Inr existing \<Rightarrow>
          Inr (fm(''aliases'' \<mapsto> YSeq (map YStr (merge_aliases existing aliases)))))"

definition processFrontMatter :: "nat \<Rightarrow> (frontmatter \<Rightarrow> error + frontmatter) \<Rightarrow> state \<Rightarrow> error option \<times> state" where
  \<comment> \<open>the host's read-modify-write: nothing is written when it or the callback fails\<close>
  "processFrontMatter file fn s =
     (let s1 = s\<lparr>io := io s @ [ProcessFrontMatter file]\<rparr>
      in if fmRejects s file then (Some IOError, s1)
         else (case fn (frontmatter s file) of
                 Inl e \<Rightarrow> (Some e, s1)
               | Inr fm \<Rightarrow> (None, s1\<lparr>frontmatter := (frontmatter s)(file := fm)\<rparr>)))"

definition updateFrontmatter :: "nat \<Rightarrow> string list \<Rightarrow> state \<Rightarrow> error option \<times> state" where
  "updateFrontmatter file aliases s =
     (case processFrontMatter file (update_aliases aliases) s of
        (None, s') \<Rightarrow> (None, s')
      | (Some e, s') \<Rightarrow>
          (Some e, s'\<lparr>console := console s' @ [ErrorFrontmatter (path (files s' file)) e]\<rparr>))"

section \<open>The pipeline\<close>

text \<open>
  \<open>Object.keys\<close> and \<open>Object.entries\<close> list the own properties of an ordinary object
  with the array indices first (canonical decimal strings below \<open>2^32 - 1\<close>, in
  ascending numeric order), then the other names in insertion order.
\<close>

definition nat_of_digits :: "string \<Rightarrow> nat" where
  "nat_of_digits s = fold (\<lambda>c n. 10 * n + (of_char c - 48)) s 0"

definition arrayIndex :: "string \<Rightarrow> bool" where
  "arrayIndex s =
     (s \<noteq> [] \<and> list_all (\<lambda>c. CHR ''0'' \<le> c \<and> c \<le> CHR ''9'') s
      \<and> (if hd s = CHR ''0'' then s = ''0'' else True)
      \<and> nat_of_digits s < 2 ^ 32 - 1)"

definition Object_entries :: "'v object \<Rightarrow> (string \<times> 'v) list" where
  "Object_entries obj =
     sort_key (\<lambda>kv. nat_of_digits (fst kv)) (filter (\<lambda>kv. arrayIndex (fst kv)) obj)
     @ filter (\<lambda>kv. \<not> arrayIndex (fst kv)) obj"

definition Object_keys :: "'v object \<Rightarrow> string list" where
  "Object_keys obj = map fst (Object_entries obj)"

fun update_targets :: "nat \<Rightarrow> (string \<times> string list) list \<Rightarrow> nat \<Rightarrow> state \<Rightarrow> (error + nat) \<times> state" where
  \<comment> \<open>the \<open>for\<close> loop of \<open>processFile\<close> over the entries left, with \<open>updatedCount\<close>\<close>
  "update_targets file [] updatedCount s = (Inr updatedCount, s)"
| "update_targets file ((targetNote, aliases) # entries) updatedCount s =
     (case linkpathDest s targetNote (path (files s file)) of
        None \<Rightarrow>
          update_targets file entries updatedCount
            (s\<lparr>console := console s @ [LogSkipped targetNote]\<rparr>)
      | Some targetFile \<Rightarrow>
          if extension (files s targetFile) = ''md'' then
            (case updateFrontmatter targetFile aliases s of
               (Some e, s') \<Rightarrow> (Inl e, s')
             | (None, s') \<Rightarrow> update_targets file entries (updatedCount + 1) s')
          else
            update_targets file entries updatedCount
              (s\<lparr>console := console s @ [LogSkipped targetNote]\<rparr>))"

definition processFile_try :: "nat \<Rightarrow> state \<Rightarrow> error option \<times> state" where
  \<comment> \<open>the \<open>try\<close> block of \<open>processFile\<close>: the error thrown in it, if any, and the state then\<close>
  "processFile_try file s =
     (case RegExp s (''^'' @ fileRegex (settings s) @ ''$'') of
        None \<Rightarrow> (Some SyntaxError, s)
      | Some regex \<Rightarrow>
          if \<not> regex (basename (files s file)) then (None, s)
          else
            let s1 = s\<lparr>io := io s @ [Read file]\<rparr>
            in (case content s file of
                  None \<Rightarrow> (Some IOError, s1)
                | Some text \<Rightarrow>
                    (case extractAliases text of
                       Inl e \<Rightarrow> (Some e, s1)
                     | Inr aliasMap \<Rightarrow>
                         if length (Object_keys aliasMap) > 0 then
                           (case update_targets file (Object_entries aliasMap) 0 s1 of
                              (Inl e, s2) \<Rightarrow> (Some e, s2)
                            | (Inr updatedCount, s2) \<Rightarrow>
                                if updatedCount > 0 \<and> showUpdateNotice (settings s2)
                                then (None, s2\<lparr>notices := notices s2 @ [NoticeUpdated updatedCount]\<rparr>)
                                else (None, s2))
                         else (None, s1))))"

definition processFile :: "nat \<Rightarrow> state \<Rightarrow> state" where
  \<comment> \<open>one call, run to its end; the call is recorded in \<open>calls\<close>\<close>
  "processFile file s =
     (case processFile_try file (s\<lparr>calls := calls s @ [(now s, file)]\<rparr>) of
        (None, s') \<Rightarrow> s'
      | (Some e, s') \<Rightarrow>
          s'\<lparr>console := console s' @ [ErrorProcessing (path (files s' file)) e],
             notices := notices s' @ [NoticeError (basename (files s' file)) e]\<rparr>)"

section \<open>Settings\<close>

definition DEFAULT_SETTINGS :: settings where
  \<comment> \<open>\<open>CHR 0x5C\<close> is the backslash of \<^verbatim>\<open>[0-9]{4}\-[0-9]{2}\-[0-9]{2}\<close>\<close>
  "DEFAULT_SETTINGS =
     \<lparr>fileRegex = ''[0-9]{4}'' @ [CHR 0x5C] @ ''-[0-9]{2}'' @ [CHR 0x5C] @ ''-[0-9]{2}'',
      showUpdateNotice = True, debounceTimeout = 1000\<rparr>"

definition loadSettings :: "state \<Rightarrow> state" where
  "loadSettings s =
     (let s1 = s\<lparr>io := io s @ [LoadData]\<rparr>
      in if loadRejects s then
           s1\<lparr>console := console s1 @ [ErrorLoading], settings := DEFAULT_SETTINGS,
              notices := notices s1 @ [NoticeLoadFailed]\<rparr>
         else
           let d = (case data s of
                      None \<Rightarrow> \<lparr>stored_fileRegex = None, stored_showUpdateNotice = None,
                               stored_debounceTimeout = None\<rparr>
                    | Some d \<Rightarrow> d);
               t = (case stored_debounceTimeout d of
                      None \<Rightarrow> debounceTimeout DEFAULT_SETTINGS
                    | Some t \<Rightarrow> t)
           in s1\<lparr>settings :=
                   \<lparr>fileRegex = (case stored_fileRegex d of
                                   None \<Rightarrow> fileRegex DEFAULT_SETTINGS | Some r \<Rightarrow> r),
                    showUpdateNotice = (case stored_showUpdateNotice d of
                                   None \<Rightarrow> showUpdateNotice DEFAULT_SETTINGS | Some b \<Rightarrow> b),
                    debounceTimeout =
                      max 1000 (min 5000 (if t = 0 then debounceTimeout DEFAULT_SETTINGS else t))\<rparr>\<rparr>)"

definition saveSettings :: "state \<Rightarrow> state" where
  "saveSettings s =
     (let s1 = s\<lparr>io := io s @ [SaveData]\<rparr>
      in if saveRejects s then
           s1\<lparr>console := console s1 @ [ErrorSaving], notices := notices s1 @ [NoticeSaveFailed]\<rparr>
         else
           s1\<lparr>data := Some \<lparr>stored_fileRegex = Some (fileRegex (settings s)),
                             stored_showUpdateNotice = Some (showUpdateNotice (settings s)),
                             stored_debounceTimeout = Some (debounceTimeout (settings s))\<rparr>\<rparr>)"

definition parseInt :: "string \<Rightarrow> int option" where
  \<comment> \<open>\<^verbatim>\<open>parseInt(value, 10)\<close>: leading white space, a sign, the longest run of digits;
      \<open>None\<close> is \<open>NaN\<close>\<close>
  "parseInt str =
     (let t = dropWhile whiteSpace str;
          negative = (t \<noteq> [] \<and> hd t = CHR ''-'');
          u = (if t \<noteq> [] \<and> (hd t = CHR ''-'' \<or> hd t = CHR ''+'') then tl t else t);
          ds = takeWhile (\<lambda>c. CHR ''0'' \<le> c \<and> c \<le> CHR ''9'') u
      in if ds = [] then None
         else Some (if negative then - int (nat_of_digits ds) else int (nat_of_digits ds)))"

definition change_fileRegex :: "string \<Rightarrow> state \<Rightarrow> state" where
  \<comment> \<open>\<open>onChange\<close> of the first setting\<close>
  "change_fileRegex v s =
     (case RegExp s v of
        None \<Rightarrow> s\<lparr>notices := notices s @ [NoticeInvalidRegex]\<rparr>
      | Some regex \<Rightarrow>
          saveSettings
            (s\<lparr>settings := (settings s)\<lparr>fileRegex :=
                 (if v = [] then fileRegex DEFAULT_SETTINGS else v)\<rparr>\<rparr>))"

definition change_showUpdateNotice :: "bool \<Rightarrow> state \<Rightarrow> state" where
  \<comment> \<open>\<open>onChange\<close> of the second setting\<close>
  "change_showUpdateNotice v s =
     saveSettings (s\<lparr>settings := (settings s)\<lparr>showUpdateNotice := v\<rparr>\<rparr>)"

definition change_debounceTimeout :: "string \<Rightarrow> state \<Rightarrow> state" where
  \<comment> \<open>\<open>onChange\<close> of the third setting\<close>
  "change_debounceTimeout v s =
     (case parseInt v of
        None \<Rightarrow> s\<lparr>notices := notices s @ [NoticeDebounceRange]\<rparr>
      | Some numValue \<Rightarrow>
          if numValue < 1000 \<or> numValue > 5000
          then s\<lparr>notices := notices s @ [NoticeDebounceRange]\<rparr>
          else
            let s1 = saveSettings (s\<lparr>settings := (settings s)\<lparr>debounceTimeout := numValue\<rparr>\<rparr>)
            in s1\<lparr>notices := notices s1 @ [NoticeDebounceUpdated]\<rparr>)"

section \<open>The scheduler\<close>

text \<open>
  \<open>setTimeout\<close> and \<open>clearTimeout\<close> work on the host's list of pending timers. A timer
  runs when the clock reaches its time due (\<open>elapse\<close>); a negative delay counts as zero.
\<close>

definition clearTimeout :: "nat option \<Rightarrow> state \<Rightarrow> state" where
  "clearTimeout t s =
     (case t of
        None \<Rightarrow> s
      | Some i \<Rightarrow> s\<lparr>timers := filter (\<lambda>timer. fst timer \<noteq> i) (timers s)\<rparr>)"

definition setTimeout :: "nat option \<Rightarrow> int \<Rightarrow> state \<Rightarrow> nat \<times> state" where
  "setTimeout arg wait s =
     (nextTimer s,
      s\<lparr>timers := timers s @ [(nextTimer s, now s + nat wait, arg)],
        nextTimer := nextTimer s + 1\<rparr>)"

definition debounced :: "int \<Rightarrow> nat option \<Rightarrow> state \<Rightarrow> state" where
  \<comment> \<open>the function \<open>debounce(func, wait)\<close> returns, called with one argument\<close>
  "debounced wait arg s =
     (case setTimeout arg wait (clearTimeout (timeout s) s) of
        (t, s') \<Rightarrow> s'\<lparr>timeout := Some t\<rparr>)"

definition debounced_func :: "nat option \<Rightarrow> state \<Rightarrow> state" where
  \<comment> \<open>the \<open>func\<close> that \<open>onload\<close> hands to \<open>debounce\<close>\<close>
  "debounced_func file s =
     (case file of
        None \<Rightarrow> s
      | Some f \<Rightarrow>
          if extension (files s f) = ''md'' \<and> activeFile s = Some f then processFile f s
          else s)"

definition file_open :: "nat option \<Rightarrow> state \<Rightarrow> state" where
  \<comment> \<open>the \<open>file-open\<close> handler\<close>
  "file_open file s =
     (case file of
        None \<Rightarrow> s
      | Some f \<Rightarrow> if extension (files s f) = ''md'' then processFile f s else s)"

definition onload :: "state \<Rightarrow> state" where
  "onload s =
     (let s1 = loadSettings s;
          s2 = s1\<lparr>registered := Some (debounceTimeout (settings s1))\<rparr>
      in s2\<lparr>console := console s2 @ [LogLoaded], notices := notices s2 @ [NoticeLoaded]\<rparr>)"

definition fire :: "nat \<times> nat \<times> nat option \<Rightarrow> state \<Rightarrow> state" where
  \<comment> \<open>a pending timer runs at its time due\<close>
  "fire timer s = debounced_func (snd (snd timer)) (s\<lparr>now := max (now s) (fst (snd timer))\<rparr>)"

definition elapse :: "nat \<Rightarrow> state \<Rightarrow> state" where
  \<comment> \<open>\<open>d\<close> milliseconds pass: the timers due by then run, the earliest first\<close>
  "elapse d s =
     (let t = now s + d;
          due = sort_key (\<lambda>timer. fst (snd timer)) (filter (\<lambda>timer. fst (snd timer) \<le> t) (timers s));
          s1 = s\<lparr>timers := filter (\<lambda>timer. \<not> fst (snd timer) \<le> t) (timers s)\<rparr>
      in (fold fire due s1)\<lparr>now := t\<rparr>)"

datatype event =
  FileOpen "nat option"
| Modify "nat option"
| ActiveFile "nat option"
| Rename nat TFile
| Elapse nat
| ChangeFileRegex string
| ChangeShowUpdateNotice bool
| ChangeDebounceTimeout string

fun step :: "event \<Rightarrow> state \<Rightarrow> state" where
  "step (FileOpen file) s = (if registered s = None then s else file_open file s)"
| "step (Modify file) s =
     (case registered s of None \<Rightarrow> s | Some wait \<Rightarrow> debounced wait file s)"
| "step (ActiveFile file) s = s\<lparr>activeFile := file\<rparr>"
| "step (Rename f tfile) s = s\<lparr>files := (files s)(f := tfile)\<rparr>"
| "step (Elapse d) s = elapse d s"
| "step (ChangeFileRegex v) s = change_fileRegex v s"
| "step (ChangeShowUpdateNotice v) s = change_showUpdateNotice v s"
| "step (ChangeDebounceTimeout v) s = change_debounceTimeout v s"

definition run :: "event list \<Rightarrow> state \<Rightarrow> state" where
  "run events s = fold step events s"

text \<open>
  A burst: modify events, each followed by a pause.
\<close>

definition burst :: "(nat option \<times> nat) list \<Rightarrow> event list" where
  "burst xs = concat (map (\<lambda>(arg, gap). [Modify arg, Elapse gap]) xs)"

section \<open>An example vault\<close>

text \<open>
  A vault for the examples: a daily note (file 1) that links to three notes (files 2, 3
  and 5), and a note whose name is not a date (file 4). Its \<open>RegExp\<close> knows one
  expression, the default pattern between its anchors, and decides it by
  \<open>date_name\<close>.
\<close>

definition date_name :: "string \<Rightarrow> bool" where
  "date_name n =
     (length n = 10
      \<and> list_all (\<lambda>i. CHR ''0'' \<le> n ! i \<and> n ! i \<le> CHR ''9'') [0, 1, 2, 3, 5, 6, 8, 9]
      \<and> n ! 4 = CHR ''-'' \<and> n ! 7 = CHR ''-'')"

definition example :: state where
  "example =
     \<lparr>files = (\<lambda>f.
         if f = 1 then \<lparr>path = ''2024-01-01.md'', basename = ''2024-01-01'', extension = ''md''\<rparr>
         else if f = 2 then \<lparr>path = ''Project Plan.md'', basename = ''Project Plan'', extension = ''md''\<rparr>
         else if f = 3 then \<lparr>path = ''Ideas.md'', basename = ''Ideas'', extension = ''md''\<rparr>
         else if f = 5 then \<lparr>path = ''Archive.md'', basename = ''Archive'', extension = ''md''\<rparr>
         else \<lparr>path = ''notes.md'', basename = ''notes'', extension = ''md''\<rparr>),
      content = (\<lambda>f.
         if f = 1 then
           Some ''Some text [[Project Plan|plan]] more [[Project Plan|Roadmap]], [[Ideas|Brainstorm]] and [[Archive|old]]''
         else Some ''[[Ideas|thoughts]]''),
      linkpathDest = (\<lambda>linkpath sourcePath.
         if linkpath = ''Project Plan'' then Some 2
         else if linkpath = ''Ideas'' then Some 3
         else if linkpath = ''Archive'' then Some 5 else None),
      frontmatter = (\<lambda>f.
         if f = 2 then [''title'' \<mapsto> YStr ''Plan'', ''aliases'' \<mapsto> YSeq [YStr ''plan'']]
         else Map.empty),
      fmRejects = (\<lambda>f. False),
      activeFile = Some 1,
      RegExp = (\<lambda>src.
         if src = ''^'' @ fileRegex DEFAULT_SETTINGS @ ''$'' then Some date_name else None),
      data = None, loadRejects = False, saveRejects = False,
      settings = DEFAULT_SETTINGS,
      registered = None, timeout = None, timers = [], nextTimer = 0, now = 0,
      notices = [], console = [], io = [], calls = []\<rparr>"

section \<open>A host for literal patterns\<close>

text \<open>
  \<^verbatim>\<open>new RegExp\<close> and \<^verbatim>\<open>match\<close> for the expressions made of letters, digits, \<open>^\<close>,
  \<open>$\<close> and \<open>|\<close>. Such an expression is a disjunction of alternatives, split at each
  \<open>|\<close>; an alternative is a sequence of terms, where \<open>^\<close> holds at index 0 of the
  string, \<open>$\<close> holds at its end, and any other character matches itself.
  \<^verbatim>\<open>str.match(regex)\<close> is truthy when some alternative matches at some index of
  \<open>str\<close>. The host of the example below compiles these expressions and no other.
\<close>

definition literal :: "char \<Rightarrow> bool" where
  "literal c = (c \<in> set ''abcdefghijklmnopqrstuvwxyzABCDEFGHIJKLMNOPQRSTUVWXYZ0123456789'')"

fun match_terms :: "string \<Rightarrow> nat \<Rightarrow> string \<Rightarrow> string option" where
  \<comment> \<open>the terms of one alternative at index \<open>i\<close>, \<open>rest\<close> being the string from \<open>i\<close> on: what
      the match leaves of the string\<close>
  "match_terms [] i rest = Some rest"
| "match_terms (t # ts) i rest =
     (if t = CHR ''^'' then (if i = 0 then match_terms ts i rest else None)
      else if t = CHR ''$'' then (if rest = [] then match_terms ts i rest else None)
      else (case rest of
              [] \<Rightarrow> None
            | c # cs \<Rightarrow> if c = t then match_terms ts (i + 1) cs else None))"

fun alternatives :: "string \<Rightarrow> string list" where
  "alternatives [] = [[]]"
| "alternatives (c # cs) =
     (if c = CHR ''|'' then [] # alternatives cs
      else (case alternatives cs of
              [] \<Rightarrow> [[c]]
            | a # as \<Rightarrow> (c # a) # as))"

definition match_literal :: "string \<Rightarrow> string \<Rightarrow> bool" where
  "match_literal src str =
     list_ex (\<lambda>i. list_ex (\<lambda>alt. match_terms alt i (drop i str) \<noteq> None) (alternatives src))
       [0..<length str + 1]"

definition literal_RegExp :: "string \<Rightarrow> (string \<Rightarrow> bool) option" where
  "literal_RegExp src =
     (if list_all (\<lambda>c. literal c \<or> c \<in> set ''^$|'') src then Some (match_literal src) else None)"

text \<open>
  What the pattern gate is to decide: that the pattern matches the entire base name,
  that is, that one of the pattern's alternatives matches from index 0 and leaves nothing
  of the name.
\<close>

definition entire_match :: "string \<Rightarrow> string \<Rightarrow> bool" where
  "entire_match pattern str =
     list_ex (\<lambda>alt. match_terms alt 0 str = Some []) (alternatives pattern)"

text \<open>
  The example vault with that host, the pattern \<open>a|b\<close>, and \<open>ax.md\<close> as file 4.
\<close>

definition alternation_example :: state where
  "alternation_example =
     example\<lparr>RegExp := literal_RegExp,
             settings := (settings example)\<lparr>fileRegex := ''a|b''\<rparr>,
             files := (files example)(4 := \<lparr>path = ''ax.md'', basename = ''ax'', extension = ''md''\<rparr>)\<rparr>"

section \<open>Invariants\<close>

text \<open>
  The invariant of the \<open>while\<close> loop: every key satisfies \<open>K\<close>, and every set of aliases
  is duplicate-free with all its members satisfying \<open>P\<close>.
\<close>

definition aliasMap_inv :: "(string \<Rightarrow> bool) \<Rightarrow> (string \<Rightarrow> bool) \<Rightarrow> string list object \<Rightarrow> bool" where
  "aliasMap_inv K P obj = (\<forall>(k, v)\<in>set obj. K k \<and> distinct v \<and> (\<forall>a\<in>set v. P a))"

text \<open>
  What a call of \<open>processFile\<close> leaves as it was: everything but the frontmatter, the
  notices, the console and the record of vault calls, which only grows.
\<close>

definition effects_only :: "state \<Rightarrow> state \<Rightarrow> bool" where
  "effects_only s s' =
     (files s' = files s \<and> content s' = content s \<and> linkpathDest s' = linkpathDest s
      \<and> fmRejects s' = fmRejects s \<and> activeFile s' = activeFile s \<and> RegExp s' = RegExp s
      \<and> data s' = data s \<and> loadRejects s' = loadRejects s \<and> saveRejects s' = saveRejects s
      \<and> settings s' = settings s \<and> registered s' = registered s \<and> timeout s' = timeout s
      \<and> timers s' = timers s \<and> nextTimer s' = nextTimer s \<and> now s' = now s
      \<and> calls s' = calls s \<and> (\<exists>more. io s' = io s @ more))"

text \<open>
  At most one timer is pending, and it is the one the variable \<open>timeout\<close> names.
\<close>

definition shared_timer :: "state \<Rightarrow> bool" where
  "shared_timer s =
     (length (timers s) \<le> 1 \<and> (\<forall>timer\<in>set (timers s). timeout s = Some (fst timer)))"

section \<open>Strings: lemmas\<close>

lemma toLowerCase_unit_idem: "toLowerCase_unit (toLowerCase_unit c) = toLowerCase_unit c"
proof -
  define n where "n = (of_char c :: nat)"
  show ?thesis
  proof (cases "(65 \<le> n \<and> n \<le> 90) \<or> (192 \<le> n \<and> n \<le> 222 \<and> n \<noteq> 215)")
    case True
    then have m: "(n + 32) mod 256 = n + 32" by auto
    have lo: "toLowerCase_unit c = char_of (n + 32)"
      using True by (simp add: toLowerCase_unit_def n_def)
    have "of_char (char_of (n + 32)) = n + 32"
      by (simp only: of_char_of m)
    then have "toLowerCase_unit (char_of (n + 32)) = char_of (n + 32)"
      using True by (auto simp: toLowerCase_unit_def Let_def)
    with lo show ?thesis by simp
  next
    case False
    then have "toLowerCase_unit c = c"
      unfolding n_def by (auto simp: toLowerCase_unit_def Let_def)
    then show ?thesis by simp
  qed
qed

lemma toLowerCase_idem: "toLowerCase (toLowerCase s) = toLowerCase s"
  by (simp add: toLowerCase_def toLowerCase_unit_idem)

lemma lineTerminator_toLowerCase_unit:
  "lineTerminator (toLowerCase_unit c) = lineTerminator c"
proof -
  define n where "n = (of_char c :: nat)"
  show ?thesis
  proof (cases "(65 \<le> n \<and> n \<le> 90) \<or> (192 \<le> n \<and> n \<le> 222 \<and> n \<noteq> 215)")
    case True
    then have m: "(n + 32) mod 256 = n + 32" by auto
    have lo: "toLowerCase_unit c = char_of (n + 32)"
      using True by (simp add: toLowerCase_unit_def n_def)
    have "of_char (char_of (n + 32)) = n + 32"
      by (simp only: of_char_of m)
    then have "\<not> lineTerminator (char_of (n + 32))"
      using True by (auto simp: lineTerminator_def)
    moreover have "\<not> lineTerminator c"
      using True unfolding n_def by (auto simp: lineTerminator_def)
    ultimately show ?thesis using lo by simp
  next
    case False
    then have "toLowerCase_unit c = c"
      unfolding n_def by (auto simp: toLowerCase_unit_def Let_def)
    then show ?thesis by simp
  qed
qed

lemma set_trim: "set (trim s) \<subseteq> set s"
proof -
  have "set (trim s) \<subseteq> set (dropWhile whiteSpace s)"
    unfolding trim_def using set_dropWhileD by fastforce
  also have "\<dots> \<subseteq> set s"
    using set_dropWhileD by fastforce
  finally show ?thesis .
qed

section \<open>The link pattern: lemmas\<close>

lemma match_close_no_lineTerminator:
  "match_close s = Some (g, r) \<Longrightarrow> \<forall>c\<in>set g. \<not> lineTerminator c"
  by (induction s arbitrary: g r) (auto split: if_splits option.splits)

lemma match_tail_no_lineTerminator:
  "match_tail s = Some (g, a, r) \<Longrightarrow>
     (\<forall>c\<in>set g. \<not> lineTerminator c) \<and> (\<forall>x. a = Some x \<longrightarrow> (\<forall>c\<in>set x. \<not> lineTerminator c))"
  by (induction s arbitrary: g a r)
     (auto split: if_splits option.splits dest: match_close_no_lineTerminator)

lemma match_close_text:
  "match_close s = Some (g, r) \<Longrightarrow> s = g @ '']]'' @ r"
  by (induction s arbitrary: g r) (auto split: if_splits option.splits simp: neq_Nil_conv)

lemma match_tail_text:
  "match_tail s = Some (g, a, r) \<Longrightarrow>
     s = g @ (case a of None \<Rightarrow> [] | Some x \<Rightarrow> CHR ''|'' # x) @ '']]'' @ r"
  by (induction s arbitrary: g a r)
     (auto split: if_splits option.splits simp: neq_Nil_conv dest: match_close_text)

lemma match_here_text:
  "match_here s = Some (g, a, r) \<Longrightarrow>
     s = ''[['' @ g @ (case a of None \<Rightarrow> [] | Some x \<Rightarrow> CHR ''|'' # x) @ '']]'' @ r"
  by (cases s rule: match_here.cases) (auto split: if_splits dest: match_tail_text)

lemma match_here_no_lineTerminator:
  "match_here s = Some (g, a, r) \<Longrightarrow>
     (\<forall>c\<in>set g. \<not> lineTerminator c) \<and> (\<forall>x. a = Some x \<longrightarrow> (\<forall>c\<in>set x. \<not> lineTerminator c))"
  by (cases s rule: match_here.cases) (auto split: if_splits dest: match_tail_no_lineTerminator)

lemma exec_all_no_lineTerminator:
  "(g, a) \<in> set (exec_all s) \<Longrightarrow>
     (\<forall>c\<in>set g. \<not> lineTerminator c) \<and> (\<forall>x. a = Some x \<longrightarrow> (\<forall>c\<in>set x. \<not> lineTerminator c))"
proof (induction s rule: exec_all.induct)
  case 1
  then show ?case by simp
next
  case (2 c cs)
  show ?case
  proof (cases "match_here (c # cs)")
    case None
    with 2 show ?thesis by simp
  next
    case (Some m)
    obtain g' a' r where m: "m = (g', a', r)" by (cases m)
    with 2 Some show ?thesis
      using match_here_no_lineTerminator [of "c # cs" g' a' r] by auto
  qed
qed

section \<open>Alias merge: lemmas\<close>

lemma set_fold_Set_add: "set (fold Set_add xs acc) = set xs \<union> set acc"
  by (induction xs arbitrary: acc) (auto simp: Set_add_def)

lemma distinct_fold_Set_add: "distinct acc \<Longrightarrow> distinct (fold Set_add xs acc)"
  by (induction xs arbitrary: acc) (auto simp: Set_add_def)

lemma set_Set_of: "set (Set_of xs) = set xs"
  by (simp add: Set_of_def set_fold_Set_add)

lemma distinct_Set_of: "distinct (Set_of xs)"
  by (simp add: Set_of_def distinct_fold_Set_add)

lemma sort_Set_of: "sort (Set_of xs) = sorted_list_of_set (set xs)"
  by (metis distinct_Set_of set_Set_of sorted_list_of_set_sort_remdups distinct_remdups_id
      sorted_list_of_set.sorted_key_list_of_set_unique sorted_sort distinct_sort set_sort finite_set)

lemma merge_aliases_eq:
  "merge_aliases existing aliases = sorted_list_of_set (toLowerCase ` set existing \<union> set aliases)"
  by (simp add: merge_aliases_def sort_Set_of)

section \<open>Alias extraction: lemmas\<close>

lemma aliasMap_inv_assign:
  "aliasMap_inv K P obj \<Longrightarrow> K k \<Longrightarrow> distinct v \<Longrightarrow> \<forall>a\<in>set v. P a \<Longrightarrow> aliasMap_inv K P (assign k v obj)"
  by (induction k v obj rule: assign.induct) (simp_all add: aliasMap_inv_def)

lemma map_of_aliasMap_inv:
  "aliasMap_inv K P obj \<Longrightarrow> map_of obj k = Some v \<Longrightarrow> distinct v \<and> (\<forall>a\<in>set v. P a)"
  by (auto simp: aliasMap_inv_def dest!: map_of_SomeD)

lemma keys_assign: "set (map fst (assign k v obj)) = insert k (set (map fst obj))"
  by (induction k v obj rule: assign.induct) (simp_all add: insert_commute)

lemma distinct_keys_assign:
  "distinct (map fst obj) \<Longrightarrow> distinct (map fst (assign k v obj))"
proof (induction obj)
  case Nil
  then show ?case by simp
next
  case (Cons kv obj)
  obtain k' v' where kv: "kv = (k', v')" by (cases kv)
  show ?case
  proof (cases "k' = k")
    case True
    with Cons kv show ?thesis by simp
  next
    case False
    have "set (map fst (assign k v obj)) = insert k (set (map fst obj))" by (rule keys_assign)
    with False Cons kv show ?thesis by auto
  qed
qed

lemma add_match_ok:
  assumes "aliasMap_inv K P obj"
    and "add_match m obj = Inr obj'"
    and "K (trim (fst m))"
    and "\<And>a. snd m = Some a \<Longrightarrow> P (toLowerCase (trim a))"
  shows "aliasMap_inv K P obj'"
proof (cases "snd m")
  case None
  with assms show ?thesis by (simp add: add_match_def Let_def)
next
  case (Some a)
  note P = assms(4) [OF Some]
  show ?thesis
  proof (cases "trim a \<noteq> [] \<and> trim (fst m) \<noteq> []")
    case False
    with assms Some show ?thesis by (auto simp: add_match_def Let_def)
  next
    case True
    show ?thesis
    proof (cases "map_of obj (trim (fst m))")
      case None
      with assms(2) Some True
      have "obj' = assign (trim (fst m)) (Set_add (toLowerCase (trim a)) []) obj"
        by (auto simp: add_match_def Let_def split: if_splits)
      with assms(1,3) P show ?thesis
        by (simp add: aliasMap_inv_assign Set_add_def)
    next
      case (Some v)
      with assms(2) \<open>snd m = Some a\<close> True
      have o: "obj' = assign (trim (fst m)) (Set_add (toLowerCase (trim a)) v) obj"
        by (auto simp: add_match_def Let_def)
      from map_of_aliasMap_inv [OF assms(1) Some] P
      have "distinct (Set_add (toLowerCase (trim a)) v)"
        and "\<forall>x\<in>set (Set_add (toLowerCase (trim a)) v). P x"
        by (auto simp: Set_add_def)
      with assms(1,3) o show ?thesis
        by (simp add: aliasMap_inv_assign)
    qed
  qed
qed

lemma add_match_distinct_keys:
  "distinct (map fst obj) \<Longrightarrow> add_match m obj = Inr obj' \<Longrightarrow> distinct (map fst obj')"
  by (auto simp: add_match_def Let_def distinct_keys_assign split: option.splits if_splits)

lemma add_matches_ok:
  assumes "add_matches ms obj = Inr obj'"
    and "aliasMap_inv K P obj"
    and "\<forall>(g, a)\<in>set ms. K (trim g) \<and> (\<forall>x. a = Some x \<longrightarrow> P (toLowerCase (trim x)))"
  shows "aliasMap_inv K P obj'"
  using assms
proof (induction ms arbitrary: obj)
  case Nil
  then show ?case by simp
next
  case (Cons m ms)
  from Cons.prems(1) obtain obj1 where 1: "add_match m obj = Inr obj1"
    and 2: "add_matches ms obj1 = Inr obj'"
    by (auto split: sum.splits)
  from Cons.prems(3) have k: "K (trim (fst m))"
    and p: "\<And>a. snd m = Some a \<Longrightarrow> P (toLowerCase (trim a))"
    by (cases m; auto)+
  have "aliasMap_inv K P obj1"
    using Cons.prems(2) 1 k p by (rule add_match_ok)
  with Cons.IH [OF 2] Cons.prems(3) show ?case by simp
qed

lemma add_matches_distinct_keys:
  "add_matches ms obj = Inr obj' \<Longrightarrow> distinct (map fst obj) \<Longrightarrow> distinct (map fst obj')"
proof (induction ms arbitrary: obj)
  case Nil
  then show ?case by simp
next
  case (Cons m ms)
  from Cons.prems(1) obtain obj1 where 1: "add_match m obj = Inr obj1"
    and 2: "add_matches ms obj1 = Inr obj'"
    by (auto split: sum.splits)
  from Cons.IH [OF 2] add_match_distinct_keys [OF Cons.prems(2) 1] show ?case .
qed

lemma extractAliases_ok:
  assumes "extractAliases doc = Inr aliasMap"
    and "\<forall>(g, a)\<in>set (exec_all doc). K (trim g) \<and> (\<forall>x. a = Some x \<longrightarrow> P (toLowerCase (trim x)))"
  shows "\<forall>(note, aliases)\<in>set aliasMap.
           K note \<and> sorted aliases \<and> distinct aliases \<and> (\<forall>a\<in>set aliases. P a)"
proof -
  from assms(1) obtain obj where obj: "add_matches (exec_all doc) [] = Inr obj"
    and m: "aliasMap = map (\<lambda>(note, aliases). (note, sort aliases)) obj"
    by (auto simp: extractAliases_def split: sum.splits)
  have "aliasMap_inv K P []" by (simp add: aliasMap_inv_def)
  with obj have "aliasMap_inv K P obj" using assms(2) by (rule add_matches_ok)
  then show ?thesis
    unfolding m aliasMap_inv_def by auto
qed

lemma extractAliases_distinct_keys:
  assumes "extractAliases doc = Inr aliasMap"
  shows "distinct (map fst aliasMap)"
proof -
  from assms obtain obj where obj: "add_matches (exec_all doc) [] = Inr obj"
    and m: "aliasMap = map (\<lambda>(note, aliases). (note, sort aliases)) obj"
    by (auto simp: extractAliases_def split: sum.splits)
  have "map fst aliasMap = map fst obj"
    unfolding m by (induction obj) auto
  with add_matches_distinct_keys [OF obj] show ?thesis by simp
qed

lemma match_here_not_bracket: "c \<noteq> CHR ''['' \<Longrightarrow> match_here (c # cs) = None"
  by (cases cs) simp_all

lemma exec_all_skip: "CHR ''['' \<notin> set pre \<Longrightarrow> exec_all (pre @ s) = exec_all s"
proof (induction pre)
  case Nil
  then show ?case by simp
next
  case (Cons c pre)
  then have "c \<noteq> CHR ''[''" by auto
  then have "match_here (c # pre @ s) = None" by (rule match_here_not_bracket)
  with Cons show ?case by simp
qed

lemma exec_all_no_bracket: "CHR ''['' \<notin> set s \<Longrightarrow> exec_all s = []"
  using exec_all_skip [of s "[]"] by simp

lemma exec_all_A_b: "exec_all (''[[A|b]]'' @ s) = (''A'', Some ''b'') # exec_all s"
  by (simp add: lineTerminator_def)

lemma exec_all_A_B: "exec_all (''[[A|B]]'' @ s) = (''A'', Some ''B'') # exec_all s"
  by (simp add: lineTerminator_def)

lemma exec_all_two_links:
  assumes "CHR ''['' \<notin> set pre" "CHR ''['' \<notin> set mid" "CHR ''['' \<notin> set post"
  shows "exec_all (pre @ ''[[A|b]]'' @ mid @ ''[[A|B]]'' @ post)
           = [(''A'', Some ''b''), (''A'', Some ''B'')]"
proof -
  have "exec_all (pre @ ''[[A|b]]'' @ mid @ ''[[A|B]]'' @ post)
          = exec_all (''[[A|b]]'' @ mid @ ''[[A|B]]'' @ post)"
    using assms(1) by (rule exec_all_skip)
  also have "\<dots> = (''A'', Some ''b'') # exec_all (mid @ ''[[A|B]]'' @ post)"
    by (rule exec_all_A_b)
  also have "exec_all (mid @ ''[[A|B]]'' @ post) = exec_all (''[[A|B]]'' @ post)"
    using assms(2) by (rule exec_all_skip)
  also have "\<dots> = (''A'', Some ''B'') # exec_all post"
    by (rule exec_all_A_B)
  also have "exec_all post = []"
    using assms(3) by (rule exec_all_no_bracket)
  finally show ?thesis .
qed

lemma add_two_links:
  "add_matches [(''A'', Some ''b''), (''A'', Some ''B'')] [] = Inr [(''A'', [''b''])]"
  by code_simp

lemma exec_all_two_links_rev:
  assumes "CHR ''['' \<notin> set pre" "CHR ''['' \<notin> set mid" "CHR ''['' \<notin> set post"
  shows "exec_all (pre @ ''[[A|B]]'' @ mid @ ''[[A|b]]'' @ post)
           = [(''A'', Some ''B''), (''A'', Some ''b'')]"
proof -
  have "exec_all (pre @ ''[[A|B]]'' @ mid @ ''[[A|b]]'' @ post)
          = exec_all (''[[A|B]]'' @ mid @ ''[[A|b]]'' @ post)"
    using assms(1) by (rule exec_all_skip)
  also have "\<dots> = (''A'', Some ''B'') # exec_all (mid @ ''[[A|b]]'' @ post)"
    by (rule exec_all_A_B)
  also have "exec_all (mid @ ''[[A|b]]'' @ post) = exec_all (''[[A|b]]'' @ post)"
    using assms(2) by (rule exec_all_skip)
  also have "\<dots> = (''A'', Some ''b'') # exec_all post"
    by (rule exec_all_A_b)
  also have "exec_all post = []"
    using assms(3) by (rule exec_all_no_bracket)
  finally show ?thesis .
qed

lemma add_two_links_rev:
  "add_matches [(''A'', Some ''B''), (''A'', Some ''b'')] [] = Inr [(''A'', [''b''])]"
  by code_simp

lemma add_match_not_aliased: "\<not> aliased m \<Longrightarrow> add_match m obj = Inr obj"
  by (auto simp: aliased_def add_match_def Let_def split: option.splits)

lemma add_match_A:
  "add_match (''A'', Some ''b'') [] = Inr [(''A'', [''b''])]"
  "add_match (''A'', Some ''B'') [] = Inr [(''A'', [''b''])]"
  "add_match (''A'', Some ''b'') [(''A'', [''b''])] = Inr [(''A'', [''b''])]"
  "add_match (''A'', Some ''B'') [(''A'', [''b''])] = Inr [(''A'', [''b''])]"
  by code_simp+

lemma add_matches_A:
  assumes "\<forall>m\<in>set ms. aliased m \<longrightarrow> m = (''A'', Some ''b'') \<or> m = (''A'', Some ''B'')"
    and "obj = [] \<or> obj = [(''A'', [''b''])]"
  shows "add_matches ms obj =
           Inr (if obj = [] \<and> \<not> list_ex aliased ms then [] else [(''A'', [''b''])])"
  using assms
proof (induction ms arbitrary: obj)
  case Nil
  then show ?case by auto
next
  case (Cons m ms)
  show ?case
  proof (cases "aliased m")
    case False
    then have "add_match m obj = Inr obj" by (rule add_match_not_aliased)
    with Cons False show ?thesis by simp
  next
    case True
    with Cons.prems have "m = (''A'', Some ''b'') \<or> m = (''A'', Some ''B'')" by simp
    with Cons.prems(2) have "add_match m obj = Inr [(''A'', [''b''])]"
      by (auto simp: add_match_A)
    moreover have "add_matches ms [(''A'', [''b''])] = Inr [(''A'', [''b''])]"
      using Cons.IH [of "[(''A'', [''b''])]"] Cons.prems(1) by simp
    ultimately show ?thesis using True by simp
  qed
qed

lemma extractAliases_A:
  assumes "set (filter aliased (exec_all doc)) = {(''A'', Some ''b''), (''A'', Some ''B'')}"
  shows "extractAliases doc = Inr [(''A'', [''b''])]"
proof -
  have a: "\<forall>m\<in>set (exec_all doc). aliased m \<longrightarrow> m = (''A'', Some ''b'') \<or> m = (''A'', Some ''B'')"
  proof (intro ballI impI)
    fix m
    assume "m \<in> set (exec_all doc)" "aliased m"
    then have "m \<in> set (filter aliased (exec_all doc))" by simp
    then have "m \<in> {(''A'', Some ''b''), (''A'', Some ''B'')}" by (simp only: assms)
    then show "m = (''A'', Some ''b'') \<or> m = (''A'', Some ''B'')" by (simp only: insert_iff empty_iff simp_thms)
  qed
  have "(''A'', Some ''b'') \<in> set (filter aliased (exec_all doc))"
    by (simp only: assms insert_iff simp_thms)
  then have "(''A'', Some ''b'') \<in> set (exec_all doc) \<and> aliased (''A'', Some ''b'')"
    by (simp only: set_filter mem_Collect_eq)
  then have "list_ex aliased (exec_all doc)"
    unfolding list_ex_iff by (rule_tac x = "(''A'', Some ''b'')" in bexI) simp_all
  with add_matches_A [OF a, of "[]"]
  have "add_matches (exec_all doc) [] = Inr [(''A'', [''b''])]" by simp
  then show ?thesis by (simp add: extractAliases_def)
qed

section \<open>The pipeline: lemmas\<close>

lemma effects_only_refl: "effects_only s s"
  by (simp add: effects_only_def)

lemma effects_only_trans: "effects_only s s1 \<Longrightarrow> effects_only s1 s2 \<Longrightarrow> effects_only s s2"
  by (auto simp: effects_only_def)

lemma effects_only_console: "effects_only s (s\<lparr>console := c\<rparr>)"
  by (simp add: effects_only_def)

lemma processFrontMatter_effects_only:
  "effects_only s (snd (processFrontMatter file fn s))"
  by (simp add: processFrontMatter_def effects_only_def Let_def split: sum.splits)

lemma updateFrontmatter_effects_only:
  "effects_only s (snd (updateFrontmatter file aliases s))"
proof -
  obtain r s' where p: "processFrontMatter file (update_aliases aliases) s = (r, s')"
    by (cases "processFrontMatter file (update_aliases aliases) s")
  with processFrontMatter_effects_only [of s "file" "update_aliases aliases"]
  have "effects_only s s'" by simp
  with p show ?thesis
    by (cases r) (simp_all add: updateFrontmatter_def effects_only_def)
qed

lemma update_targets_effects_only:
  "effects_only s (snd (update_targets file entries n s))"
proof (induction entries arbitrary: n s)
  case Nil
  then show ?case by (simp add: effects_only_refl)
next
  case (Cons entry entries)
  obtain targetNote aliases where e: "entry = (targetNote, aliases)" by (cases entry)
  have skip: "effects_only s (snd (update_targets file entries n (s\<lparr>console := c\<rparr>)))" for c
    using effects_only_console Cons.IH by (rule effects_only_trans)
  show ?case
  proof (cases "linkpathDest s targetNote (path (files s file))")
    case None
    with e skip show ?thesis by simp
  next
    case (Some targetFile)
    show ?thesis
    proof (cases "extension (files s targetFile) = ''md''")
      case False
      with e Some skip show ?thesis by simp
    next
      case True
      obtain r s' where u: "updateFrontmatter targetFile aliases s = (r, s')"
        by (cases "updateFrontmatter targetFile aliases s")
      with updateFrontmatter_effects_only [of s targetFile aliases]
      have s': "effects_only s s'" by simp
      show ?thesis
      proof (cases r)
        case None
        from s' Cons.IH [of s' "n + 1"] have "effects_only s (snd (update_targets file entries (n + 1) s'))"
          by (rule effects_only_trans)
        with e Some True u None show ?thesis by simp
      next
        case (Some err)
        with e \<open>linkpathDest s targetNote (path (files s file)) = Some targetFile\<close> True u s'
        show ?thesis by simp
      qed
    qed
  qed
qed

lemma processFile_try_no_match:
  assumes "\<not> (\<exists>regex. RegExp s (''^'' @ fileRegex (settings s) @ ''$'') = Some regex
                \<and> regex (basename (files s file)))"
  shows "snd (processFile_try file s) = s"
  using assms by (auto simp: processFile_try_def split: option.splits)

lemma processFile_try_match:
  assumes "RegExp s (''^'' @ fileRegex (settings s) @ ''$'') = Some regex"
    and "regex (basename (files s file))"
  shows "effects_only (s\<lparr>io := io s @ [Read file]\<rparr>) (snd (processFile_try file s))"
proof -
  define s1 where "s1 = s\<lparr>io := io s @ [Read file]\<rparr>"
  show ?thesis
  proof (cases "content s file")
    case None
    with assms show ?thesis by (simp add: processFile_try_def effects_only_refl)
  next
    case (Some doc)
    show ?thesis
    proof (cases "extractAliases doc")
      case (Inl e)
      with assms Some show ?thesis by (simp add: processFile_try_def effects_only_refl)
    next
      case (Inr aliasMap)
      show ?thesis
      proof (cases "length (Object_keys aliasMap) > 0")
        case False
        with assms Some Inr show ?thesis by (simp add: processFile_try_def effects_only_refl)
      next
        case True
        obtain r s2 where u: "update_targets file (Object_entries aliasMap) 0 s1 = (r, s2)"
          by (cases "update_targets file (Object_entries aliasMap) 0 s1")
        with update_targets_effects_only [of s1 "file" "Object_entries aliasMap" 0]
        have s2: "effects_only s1 s2" by simp
        then have n: "effects_only s1 (s2\<lparr>notices := m\<rparr>)" for m
          by (simp add: effects_only_def)
        have "snd (processFile_try file s) = s2
              \<or> (\<exists>m. snd (processFile_try file s) = s2\<lparr>notices := m\<rparr>)"
          using assms Some Inr True u
          by (cases r) (auto simp: processFile_try_def s1_def)
        with s2 n show ?thesis unfolding s1_def by auto
      qed
    qed
  qed
qed

lemma processFile_try_effects_only:
  "effects_only s (snd (processFile_try file s))"
proof (cases "\<exists>regex. RegExp s (''^'' @ fileRegex (settings s) @ ''$'') = Some regex
                \<and> regex (basename (files s file))")
  case False
  then have "snd (processFile_try file s) = s" by (rule processFile_try_no_match)
  then show ?thesis by (simp add: effects_only_refl)
next
  case True
  then obtain regex where "RegExp s (''^'' @ fileRegex (settings s) @ ''$'') = Some regex"
    and "regex (basename (files s file))" by blast
  then have "effects_only (s\<lparr>io := io s @ [Read file]\<rparr>) (snd (processFile_try file s))"
    by (rule processFile_try_match)
  moreover have "effects_only s (s\<lparr>io := io s @ [Read file]\<rparr>)"
    by (simp add: effects_only_def)
  ultimately show ?thesis by (rule effects_only_trans [rotated])
qed

lemma processFile_effects_only:
  "effects_only (s\<lparr>calls := calls s @ [(now s, file)]\<rparr>) (processFile file s)"
proof -
  obtain r s' where t: "processFile_try file (s\<lparr>calls := calls s @ [(now s, file)]\<rparr>) = (r, s')"
    by (cases "processFile_try file (s\<lparr>calls := calls s @ [(now s, file)]\<rparr>)")
  with processFile_try_effects_only [of "s\<lparr>calls := calls s @ [(now s, file)]\<rparr>" "file"]
  have s': "effects_only (s\<lparr>calls := calls s @ [(now s, file)]\<rparr>) s'" by simp
  then have "effects_only (s\<lparr>calls := calls s @ [(now s, file)]\<rparr>) (s'\<lparr>console := x, notices := y\<rparr>)" for x y
    by (simp add: effects_only_def)
  with s' t show ?thesis
    by (cases r) (simp_all add: processFile_def)
qed

lemma frontmatter_processFrontMatter:
  "frontmatter (snd (processFrontMatter file fn s)) =
     (if fmRejects s file then frontmatter s
      else case fn (frontmatter s file) of
             Inl e \<Rightarrow> frontmatter s
           | Inr fm \<Rightarrow> (frontmatter s)(file := fm))"
  by (simp add: processFrontMatter_def Let_def split: sum.splits)

lemma fst_processFrontMatter:
  "fst (processFrontMatter file fn s) =
     (if fmRejects s file then Some IOError
      else case fn (frontmatter s file) of Inl e \<Rightarrow> Some e | Inr fm \<Rightarrow> None)"
  by (simp add: processFrontMatter_def Let_def split: sum.splits)

lemma updateFrontmatter_processFrontMatter:
  "frontmatter (snd (updateFrontmatter file aliases s))
     = frontmatter (snd (processFrontMatter file (update_aliases aliases) s))
   \<and> fst (updateFrontmatter file aliases s)
     = fst (processFrontMatter file (update_aliases aliases) s)
   \<and> io (snd (updateFrontmatter file aliases s))
     = io (snd (processFrontMatter file (update_aliases aliases) s))"
  by (cases "processFrontMatter file (update_aliases aliases) s")
     (auto simp: updateFrontmatter_def split: option.splits)

lemma update_aliases_other_keys:
  "update_aliases aliases fm = Inr fm' \<Longrightarrow> k \<noteq> ''aliases'' \<Longrightarrow> fm' k = fm k"
  by (auto simp: update_aliases_def split: sum.splits)

lemma processFile_cases:
  "processFile file s = snd (processFile_try file (s\<lparr>calls := calls s @ [(now s, file)]\<rparr>))
   \<or> (\<exists>c n. processFile file s =
         (snd (processFile_try file (s\<lparr>calls := calls s @ [(now s, file)]\<rparr>)))
           \<lparr>console := c, notices := n\<rparr>)"
proof (cases "processFile_try file (s\<lparr>calls := calls s @ [(now s, file)]\<rparr>)")
  case (Pair r s')
  then show ?thesis
    by (cases r) (auto simp: processFile_def)
qed

lemma io_processFile:
  "io (processFile file s) = io (snd (processFile_try file (s\<lparr>calls := calls s @ [(now s, file)]\<rparr>)))"
  using processFile_cases [of "file" s] by auto

lemma frontmatter_processFile:
  "frontmatter (processFile file s)
     = frontmatter (snd (processFile_try file (s\<lparr>calls := calls s @ [(now s, file)]\<rparr>)))"
  using processFile_cases [of "file" s] by auto

lemma update_targets_append:
  "update_targets file (xs @ ys) n s =
     (case update_targets file xs n s of
        (Inl e, s') \<Rightarrow> (Inl e, s')
      | (Inr n', s') \<Rightarrow> update_targets file ys n' s')"
proof (induction xs arbitrary: n s)
  case Nil
  then show ?case by simp
next
  case (Cons x xs)
  obtain targetNote aliases where x: "x = (targetNote, aliases)" by (cases x)
  show ?case
    unfolding x
    by (simp add: Cons.IH split: option.splits prod.splits sum.splits)
qed

lemma updateFrontmatter_error:
  assumes "fst (updateFrontmatter file aliases s) = Some e"
  shows "frontmatter (snd (updateFrontmatter file aliases s)) = frontmatter s"
    and "io (snd (updateFrontmatter file aliases s)) = io s @ [ProcessFrontMatter file]"
    and "notices (snd (updateFrontmatter file aliases s)) = notices s"
  using assms
  by (auto simp: updateFrontmatter_def processFrontMatter_def Let_def
        split: sum.splits if_splits)

text \<open>
  A pattern of letters and digits has one alternative, and between the anchors it matches
  the names equal to it.
\<close>

lemma literal_not_special: "literal c \<Longrightarrow> c \<noteq> CHR ''|'' \<and> c \<noteq> CHR ''^'' \<and> c \<noteq> CHR ''$''"
  by (auto simp: literal_def)

lemma alternatives_literal: "CHR ''|'' \<notin> set p \<Longrightarrow> alternatives p = [p]"
  by (induction p) auto

lemma match_terms_literal:
  "CHR ''^'' \<notin> set p \<Longrightarrow> CHR ''$'' \<notin> set p \<Longrightarrow>
     match_terms (p @ ts) i rest =
       (if take (length p) rest = p
        then match_terms ts (i + length p) (drop (length p) rest) else None)"
proof (induction p arbitrary: i rest)
  case Nil
  then show ?case by simp
next
  case (Cons c p)
  then show ?case by (cases rest) auto
qed

lemma match_literal_anchored:
  assumes "list_all literal p"
  shows "literal_RegExp (''^'' @ p @ ''$'') = Some (match_literal (''^'' @ p @ ''$''))"
    and "match_literal (''^'' @ p @ ''$'') n = (n = p)"
    and "entire_match p n = (n = p)"
proof -
  from assms have s: "CHR ''|'' \<notin> set p" "CHR ''^'' \<notin> set p" "CHR ''$'' \<notin> set p"
    using literal_not_special by (auto simp: list_all_iff)
  define A where "A = ''^'' @ p @ ''$''"
  have a: "alternatives A = [A]"
    unfolding A_def using s(1) by (intro alternatives_literal) simp
  have m: "match_terms (p @ ts) i rest =
       (if take (length p) rest = p
        then match_terms ts (i + length p) (drop (length p) rest) else None)" for ts i rest
    using s(2,3) by (rule match_terms_literal)
  have e: "(take (length p) n = p \<and> drop (length p) n = []) = (n = p)" for n
  proof
    assume "take (length p) n = p \<and> drop (length p) n = []"
    then show "n = p" by (metis append_take_drop_id append_Nil2)
  next
    assume "n = p"
    then show "take (length p) n = p \<and> drop (length p) n = []" by simp
  qed
  have t: "(match_terms A i (drop i n) \<noteq> None) = (i = 0 \<and> n = p)" for i n
    unfolding A_def using e [of n] by (auto simp: m)
  have "match_literal A n = (\<exists>i\<in>set [0..<length n + 1]. match_terms A i (drop i n) \<noteq> None)"
    unfolding match_literal_def a list_ex_iff by simp
  also have "\<dots> = (\<exists>i\<in>set [0..<length n + 1]. i = 0 \<and> n = p)"
    by (simp only: t)
  also have "\<dots> = (n = p)" by auto
  finally show "match_literal (''^'' @ p @ ''$'') n = (n = p)" unfolding A_def .
  from assms show "literal_RegExp (''^'' @ p @ ''$'') = Some (match_literal (''^'' @ p @ ''$''))"
    by (simp add: literal_RegExp_def list_all_iff)
  have "match_terms (p @ []) 0 n = Some [] \<longleftrightarrow> n = p"
    using e [of n] by (auto simp: m simp del: append_Nil2)
  then show "entire_match p n = (n = p)"
    by (simp add: entire_match_def alternatives_literal [OF s(1)])
qed

section \<open>The scheduler: lemmas\<close>

lemma calls_processFile: "calls (processFile file s) = calls s @ [(now s, file)]"
  using processFile_effects_only [of s "file"] by (simp add: effects_only_def)

lemma processFile_scheduler:
  "registered (processFile file s) = registered s"
  "timeout (processFile file s) = timeout s"
  "timers (processFile file s) = timers s"
  "nextTimer (processFile file s) = nextTimer s"
  "now (processFile file s) = now s"
  "files (processFile file s) = files s"
  "activeFile (processFile file s) = activeFile s"
  "settings (processFile file s) = settings s"
  using processFile_effects_only [of s "file"] by (simp_all add: effects_only_def)

lemma debounced_func_scheduler:
  "registered (debounced_func arg s) = registered s"
  "timeout (debounced_func arg s) = timeout s"
  "timers (debounced_func arg s) = timers s"
  "nextTimer (debounced_func arg s) = nextTimer s"
  "now (debounced_func arg s) = now s"
  "files (debounced_func arg s) = files s"
  "activeFile (debounced_func arg s) = activeFile s"
  "settings (debounced_func arg s) = settings s"
  by (simp_all add: debounced_func_def processFile_scheduler split: option.splits)

lemma file_open_scheduler:
  "registered (file_open arg s) = registered s"
  "timeout (file_open arg s) = timeout s"
  "timers (file_open arg s) = timers s"
  by (simp_all add: file_open_def processFile_scheduler split: option.splits)

lemma fire_scheduler:
  "registered (fire timer s) = registered s"
  "timeout (fire timer s) = timeout s"
  "timers (fire timer s) = timers s"
  "nextTimer (fire timer s) = nextTimer s"
  "files (fire timer s) = files s"
  "activeFile (fire timer s) = activeFile s"
  by (simp_all add: fire_def debounced_func_scheduler)

lemma fold_fire_scheduler:
  "registered (fold fire due s) = registered s
   \<and> timeout (fold fire due s) = timeout s
   \<and> timers (fold fire due s) = timers s
   \<and> nextTimer (fold fire due s) = nextTimer s
   \<and> files (fold fire due s) = files s
   \<and> activeFile (fold fire due s) = activeFile s"
  by (induction due arbitrary: s) (simp_all add: fire_scheduler)

lemma elapse_scheduler:
  "registered (elapse d s) = registered s"
  "timeout (elapse d s) = timeout s"
  "timers (elapse d s) = filter (\<lambda>timer. \<not> fst (snd timer) \<le> now s + d) (timers s)"
  "nextTimer (elapse d s) = nextTimer s"
  "files (elapse d s) = files s"
  "activeFile (elapse d s) = activeFile s"
  "now (elapse d s) = now s + d"
  by (simp_all add: elapse_def Let_def fold_fire_scheduler)

lemma saveSettings_scheduler:
  "registered (saveSettings s) = registered s"
  "timeout (saveSettings s) = timeout s"
  "timers (saveSettings s) = timers s"
  "settings (saveSettings s) = settings s"
  by (simp_all add: saveSettings_def Let_def)

lemma change_scheduler:
  "registered (change_fileRegex v s) = registered s"
  "timeout (change_fileRegex v s) = timeout s"
  "timers (change_fileRegex v s) = timers s"
  "registered (change_showUpdateNotice b s) = registered s"
  "timeout (change_showUpdateNotice b s) = timeout s"
  "timers (change_showUpdateNotice b s) = timers s"
  "registered (change_debounceTimeout v s) = registered s"
  "timeout (change_debounceTimeout v s) = timeout s"
  "timers (change_debounceTimeout v s) = timers s"
  by (simp_all add: change_fileRegex_def change_showUpdateNotice_def change_debounceTimeout_def
        saveSettings_scheduler Let_def split: option.splits)

lemma debounced_timers:
  "timers (debounced w arg s)
     = filter (\<lambda>timer. timeout s \<noteq> Some (fst timer)) (timers s) @ [(nextTimer s, now s + nat w, arg)]"
  by (cases "timeout s")
     (simp_all add: debounced_def setTimeout_def clearTimeout_def neq_commute)

lemma debounced_scheduler:
  "timeout (debounced w arg s) = Some (nextTimer s)"
  "registered (debounced w arg s) = registered s"
  "nextTimer (debounced w arg s) = nextTimer s + 1"
  "now (debounced w arg s) = now s"
  "files (debounced w arg s) = files s"
  "activeFile (debounced w arg s) = activeFile s"
  "calls (debounced w arg s) = calls s"
  by (cases "timeout s"; simp add: debounced_def setTimeout_def clearTimeout_def)+

lemma debounced_shared_timer:
  assumes "shared_timer s"
  shows "timers (debounced w arg s) = [(nextTimer s, now s + nat w, arg)]"
proof -
  have "filter (\<lambda>timer. timeout s \<noteq> Some (fst timer)) (timers s) = []"
    using assms by (auto simp: shared_timer_def filter_empty_conv)
  then show ?thesis by (simp add: debounced_timers)
qed

lemma step_registered: "registered (step ev s) = registered s"
  by (cases ev)
     (simp_all add: file_open_scheduler debounced_scheduler elapse_scheduler change_scheduler
        split: option.splits)

lemma run_registered: "registered (run events s) = registered s"
  unfolding run_def by (induction events arbitrary: s) (simp_all add: step_registered)

lemma shared_timer_filter:
  assumes "shared_timer s" "timeout s' = timeout s" "timers s' = filter P (timers s)"
  shows "shared_timer s'"
proof -
  have "length (filter P (timers s)) \<le> 1"
    using length_filter_le [of P "timers s"] assms(1) unfolding shared_timer_def by linarith
  with assms show ?thesis by (auto simp: shared_timer_def)
qed

lemma shared_timer_same:
  assumes "shared_timer s" "timeout s' = timeout s" "timers s' = timers s"
  shows "shared_timer s'"
  using assms by (simp add: shared_timer_def)

lemma step_shared_timer:
  assumes "shared_timer s"
  shows "shared_timer (step ev s)"
proof (cases ev)
  case (FileOpen arg)
  with assms show ?thesis
    by (auto intro: shared_timer_same simp: file_open_scheduler)
next
  case (Modify arg)
  show ?thesis
  proof (cases "registered s")
    case None
    with Modify assms show ?thesis by simp
  next
    case (Some w)
    with Modify debounced_shared_timer [OF assms, of w arg] show ?thesis
      by (simp add: shared_timer_def debounced_scheduler)
  qed
next
  case (Elapse d)
  with assms show ?thesis
    by (auto intro: shared_timer_filter simp: elapse_scheduler)
next
  case (ChangeFileRegex v)
  with assms show ?thesis
    by (auto intro: shared_timer_same simp: change_scheduler)
next
  case (ChangeShowUpdateNotice v)
  with assms show ?thesis
    by (auto intro: shared_timer_same simp: change_scheduler)
next
  case (ChangeDebounceTimeout v)
  with assms show ?thesis
    by (auto intro: shared_timer_same simp: change_scheduler)
qed (use assms in \<open>simp_all add: shared_timer_def\<close>)

lemma run_shared_timer: "shared_timer s \<Longrightarrow> shared_timer (run events s)"
  unfolding run_def by (induction events arbitrary: s) (simp_all add: step_shared_timer)

lemma calls_debounced_func:
  "calls (debounced_func arg s) =
     (if arg \<noteq> None \<and> extension (files s (the arg)) = ''md'' \<and> activeFile s = arg
      then calls s @ [(now s, the arg)] else calls s)"
  by (cases arg) (auto simp: debounced_func_def calls_processFile)

lemma calls_fire:
  "calls (fire (i, t, arg) s) =
     (if arg \<noteq> None \<and> extension (files s (the arg)) = ''md'' \<and> activeFile s = arg
      then calls s @ [(max (now s) t, the arg)] else calls s)"
  by (simp add: fire_def calls_debounced_func)

lemma fire_skipped:
  "\<not> (arg \<noteq> None \<and> extension (files s (the arg)) = ''md'' \<and> activeFile s = arg)
     \<Longrightarrow> fire (i, t, arg) s = s\<lparr>now := max (now s) t\<rparr>"
  by (cases arg) (auto simp: fire_def debounced_func_def)

lemma calls_elapse_single:
  assumes "timers s = [(i, t, arg)]"
  shows "calls (elapse d s) =
     (if t \<le> now s + d \<and> arg \<noteq> None \<and> extension (files s (the arg)) = ''md'' \<and> activeFile s = arg
      then calls s @ [(max (now s) t, the arg)] else calls s)"
  using assms by (simp add: elapse_def Let_def calls_fire)

lemma calls_elapse_none: "timers s = [] \<Longrightarrow> calls (elapse d s) = calls s"
  by (simp add: elapse_def Let_def)

lemma debounced_then_elapse:
  assumes "shared_timer s"
  shows "calls (elapse d (debounced w arg s)) =
           (if nat w \<le> d \<and> arg \<noteq> None \<and> extension (files s (the arg)) = ''md'' \<and> activeFile s = arg
            then calls s @ [(now s + nat w, the arg)] else calls s)"
    and "timers (elapse d (debounced w arg s)) =
           (if nat w \<le> d then [] else [(nextTimer s, now s + nat w, arg)])"
    and "shared_timer (elapse d (debounced w arg s))"
proof -
  note t = debounced_shared_timer [OF assms, of w arg]
  show "calls (elapse d (debounced w arg s)) =
           (if nat w \<le> d \<and> arg \<noteq> None \<and> extension (files s (the arg)) = ''md'' \<and> activeFile s = arg
            then calls s @ [(now s + nat w, the arg)] else calls s)"
    by (simp add: calls_elapse_single [OF t] debounced_scheduler)
  show "timers (elapse d (debounced w arg s)) =
           (if nat w \<le> d then [] else [(nextTimer s, now s + nat w, arg)])"
    by (simp add: elapse_scheduler t debounced_scheduler)
  then show "shared_timer (elapse d (debounced w arg s))"
    by (simp add: shared_timer_def elapse_scheduler debounced_scheduler)
qed

lemma debounceTimeout_change:
  assumes "parseInt v = Some n" "1000 \<le> n" "n \<le> 5000"
  shows "debounceTimeout (settings (change_debounceTimeout v s)) = n"
  using assms by (simp add: change_debounceTimeout_def Let_def saveSettings_scheduler)

lemma run_append: "run (xs @ ys) s = run ys (run xs s)"
  by (simp add: run_def)

lemma burst_quiet:
  assumes "shared_timer s" "registered s = Some w" "\<forall>(arg, gap)\<in>set xs. gap < nat w"
  shows "calls (run (burst xs) s) = calls s
         \<and> shared_timer (run (burst xs) s)
         \<and> registered (run (burst xs) s) = Some w
         \<and> files (run (burst xs) s) = files s
         \<and> activeFile (run (burst xs) s) = activeFile s
         \<and> now (run (burst xs) s) = now s + sum_list (map snd xs)"
  using assms
proof (induction xs arbitrary: s)
  case Nil
  then show ?case by (simp add: burst_def run_def)
next
  case (Cons x xs)
  obtain arg gap where x: "x = (arg, gap)" by (cases x)
  define s1 where "s1 = elapse gap (debounced w arg s)"
  from Cons.prems x have g: "gap < nat w" by simp
  have r: "run (burst (x # xs)) s = run (burst xs) s1"
    using Cons.prems(2) by (simp add: burst_def run_def x s1_def)
  have s1: "calls s1 = calls s" "shared_timer s1" "registered s1 = Some w"
    "files s1 = files s" "activeFile s1 = activeFile s" "now s1 = now s + gap"
    unfolding s1_def using g Cons.prems(2)
    by (simp_all add: debounced_then_elapse [OF Cons.prems(1)] elapse_scheduler debounced_scheduler)
  from Cons.prems(3) have "\<forall>(arg, gap)\<in>set xs. gap < nat w" by simp
  from Cons.IH [OF s1(2,3) this] show ?case
    unfolding r by (simp add: s1 x)
qed

lemma burst_then_quiet:
  assumes "shared_timer s" "registered s = Some w" "\<forall>(arg, gap)\<in>set xs. gap < nat w"
    and "nat w \<le> d" "extension (files s f) = ''md''" "activeFile s = Some f"
  shows "calls (run (burst xs @ [Modify (Some f), Elapse d]) s)
           = calls s @ [(now s + sum_list (map snd xs) + nat w, f)]"
proof -
  define s1 where "s1 = run (burst xs) s"
  note q = burst_quiet [OF assms(1,2,3), folded s1_def]
  have "run [Modify (Some f), Elapse d] s1 = elapse d (debounced w (Some f) s1)"
    using q by (simp add: run_def)
  then have "run (burst xs @ [Modify (Some f), Elapse d]) s = elapse d (debounced w (Some f) s1)"
    by (simp add: run_append s1_def)
  moreover from q have "shared_timer s1" by simp
  ultimately show ?thesis
    using q assms(4,5,6) by (simp add: debounced_then_elapse)
qed

section \<open>Properties of the merge\<close>


text \<open>
  What the merge computes for all lists. On an incoming list that is lower-case, as
  every list is that \<open>processFile\<close> passes, it is the sorted set union of both lists
  lower-cased.
\<close>

lemma merge_aliases_lowercases_existing_only:
  "sorted (merge_aliases existing aliases)
   \<and> distinct (merge_aliases existing aliases)
   \<and> set (merge_aliases existing aliases) = toLowerCase ` set existing \<union> set aliases
   \<and> ((\<forall>a\<in>set aliases. toLowerCase a = a) \<longrightarrow>
        merge_aliases existing aliases
          = sorted_list_of_set (toLowerCase ` (set existing \<union> set aliases)))
   \<and> merge_aliases [''Foo''] [''bar'', ''foo''] = [''bar'', ''foo'']"
proof -
  have eq: "merge_aliases existing aliases
              = sorted_list_of_set (toLowerCase ` set existing \<union> set aliases)"
    by (rule merge_aliases_eq)
  have fin: "finite (toLowerCase ` set existing \<union> set aliases)" by simp
  have 1: "sorted (merge_aliases existing aliases)"
    unfolding eq by (rule sorted_list_of_set.sorted_sorted_key_list_of_set)
  have 2: "distinct (merge_aliases existing aliases)"
    unfolding eq by (rule sorted_list_of_set.distinct_sorted_key_list_of_set)
  have 3: "set (merge_aliases existing aliases) = toLowerCase ` set existing \<union> set aliases"
    unfolding eq using fin by (rule sorted_list_of_set.set_sorted_key_list_of_set)
  have 4: "merge_aliases existing aliases
             = sorted_list_of_set (toLowerCase ` (set existing \<union> set aliases))"
    if "\<forall>a\<in>set aliases. toLowerCase a = a"
  proof -
    from that have "toLowerCase ` set aliases = set aliases" by force
    then show ?thesis by (simp add: eq image_Un)
  qed
  have 5: "merge_aliases [''Foo''] [''bar'', ''foo''] = [''bar'', ''foo'']"
    by code_simp
  from 1 2 3 4 5 show ?thesis by blast
qed

lemma merge_aliases_lowercases_existing_only_example:
  "toLowerCase ''bar'' = ''bar'' \<and> toLowerCase ''foo'' = ''foo''
   \<and> merge_aliases [''Foo''] [''bar'', ''foo'']
       = sorted_list_of_set (toLowerCase ` (set [''Foo''] \<union> set [''bar'', ''foo'']))
   \<and> sorted (merge_aliases [''Foo''] [''bar'', ''foo''])"
proof -
  have l: "toLowerCase ''bar'' = ''bar''" "toLowerCase ''foo'' = ''foo''"
    by (simp_all add: toLowerCase_def toLowerCase_unit_def)
  then have h: "\<forall>a\<in>set [''bar'', ''foo'']. toLowerCase a = a" by simp
  from merge_aliases_lowercases_existing_only [of "[''Foo'']" "[''bar'', ''foo'']"] h l
  show ?thesis by blast
qed


text \<open>
  On an incoming list that is lower-case, a second merge changes nothing.
\<close>

lemma merge_aliases_idempotent_lowercase:
  assumes "\<forall>x\<in>set b. toLowerCase x = x"
  shows "merge_aliases (merge_aliases a b) b = merge_aliases a b"
proof -
  from assms have b: "toLowerCase ` set b = set b" by force
  have "toLowerCase ` set (merge_aliases a b) = toLowerCase ` set a \<union> set b"
    by (simp add: merge_aliases_eq image_Un image_image toLowerCase_idem b)
  then show ?thesis
    by (simp add: merge_aliases_eq [of "merge_aliases a b" b]) (simp add: merge_aliases_eq)
qed

lemma merge_aliases_idempotent_lowercase_example:
  "toLowerCase ''bar'' = ''bar'' \<and> toLowerCase ''foo'' = ''foo''
   \<and> merge_aliases (merge_aliases [''Foo''] [''bar'', ''foo'']) [''bar'', ''foo'']
       = merge_aliases [''Foo''] [''bar'', ''foo'']"
proof -
  have l: "toLowerCase ''bar'' = ''bar''" "toLowerCase ''foo'' = ''foo''"
    by (simp_all add: toLowerCase_def toLowerCase_unit_def)
  then have h: "\<forall>x\<in>set [''bar'', ''foo'']. toLowerCase x = x" by simp
  from merge_aliases_idempotent_lowercase [OF h, of "[''Foo'']"] l
  show ?thesis by blast
qed

section \<open>Properties of the extraction\<close>

text \<open>
  C4. The keys of the map that \<open>extractAliases\<close> returns are distinct, and each of its
  alias lists is sorted, lower-case and without two entries that are equal under
  case-insensitive comparison. The links of a text are the matches of the pattern that
  the scan finds, and those with a target and an alias are the ones that pass the guard
  \<^verbatim>\<open>if (alias && targetNote)\<close>. A text whose links with a target and an alias are
  exactly \<open>[[A|b]]\<close> and \<open>[[A|B]]\<close>, in any order and any number, yields exactly
  \<open>{A: ["b"]}\<close>, whatever else the text holds.
\<close>
theorem extractAliases_lists:
  "(extractAliases doc = Inr aliasMap \<longrightarrow>
      distinct (map fst aliasMap)
      \<and> (\<forall>(note, aliases)\<in>set aliasMap.
            sorted aliases \<and> distinct aliases
            \<and> (\<forall>a\<in>set aliases. toLowerCase a = a)
            \<and> (\<forall>a\<in>set aliases. \<forall>b\<in>set aliases. toLowerCase a = toLowerCase b \<longrightarrow> a = b)))
   \<and> (set (filter aliased (exec_all str)) = {(''A'', Some ''b''), (''A'', Some ''B'')} \<longrightarrow>
        extractAliases str = Inr [(''A'', [''b''])])"
proof -
  have 1: "distinct (map fst aliasMap)
      \<and> (\<forall>(note, aliases)\<in>set aliasMap.
            sorted aliases \<and> distinct aliases
            \<and> (\<forall>a\<in>set aliases. toLowerCase a = a)
            \<and> (\<forall>a\<in>set aliases. \<forall>b\<in>set aliases. toLowerCase a = toLowerCase b \<longrightarrow> a = b))"
    if e: "extractAliases doc = Inr aliasMap"
  proof -
    have "\<forall>(g, a)\<in>set (exec_all doc).
            True \<and> (\<forall>x. a = Some x \<longrightarrow> toLowerCase (toLowerCase (trim x)) = toLowerCase (trim x))"
      by (simp add: toLowerCase_idem split_beta)
    with e have "\<forall>(note, aliases)\<in>set aliasMap.
           True \<and> sorted aliases \<and> distinct aliases \<and> (\<forall>a\<in>set aliases. toLowerCase a = a)"
      by (rule extractAliases_ok [where K = "\<lambda>k. True" and P = "\<lambda>a. toLowerCase a = a"])
    then have "\<forall>(note, aliases)\<in>set aliasMap.
            sorted aliases \<and> distinct aliases
            \<and> (\<forall>a\<in>set aliases. toLowerCase a = a)
            \<and> (\<forall>a\<in>set aliases. \<forall>b\<in>set aliases. toLowerCase a = toLowerCase b \<longrightarrow> a = b)"
      by fastforce
    with extractAliases_distinct_keys [OF e] show ?thesis by simp
  qed
  have 2: "extractAliases str = Inr [(''A'', [''b''])]"
    if "set (filter aliased (exec_all str)) = {(''A'', Some ''b''), (''A'', Some ''B'')}"
    using that by (rule extractAliases_A)
  from 1 2 show ?thesis by (intro conjI impI) (assumption | simp)+
qed

theorem extractAliases_lists_witness:
  "exec_all ''see [1]: [[A|B]] [[C]] [[A|b]] [[D| ]]''
     = [(''A'', Some ''B''), (''C'', None), (''A'', Some ''b''), (''D'', Some '' '')]
   \<and> filter aliased (exec_all ''see [1]: [[A|B]] [[C]] [[A|b]] [[D| ]]'')
     = [(''A'', Some ''B''), (''A'', Some ''b'')]
   \<and> extractAliases ''see [1]: [[A|B]] [[C]] [[A|b]] [[D| ]]'' = Inr [(''A'', [''b''])]
   \<and> extractAliases ''[[T|zeta]] [[T|Alpha]] [[T|ALPHA]]'' = Inr [(''T'', [''alpha'', ''zeta''])]
   \<and> sorted [''alpha'', ''zeta''] \<and> distinct [''alpha'', ''zeta'']
   \<and> toLowerCase ''alpha'' = ''alpha'' \<and> toLowerCase ''zeta'' = ''zeta''"
proof -
  have x: "exec_all ''see [1]: [[A|B]] [[C]] [[A|b]] [[D| ]]''
     = [(''A'', Some ''B''), (''C'', None), (''A'', Some ''b''), (''D'', Some '' '')]"
    by code_simp
  have f: "filter aliased (exec_all ''see [1]: [[A|B]] [[C]] [[A|b]] [[D| ]]'')
     = [(''A'', Some ''B''), (''A'', Some ''b'')]"
    unfolding x by code_simp
  then have s: "set (filter aliased (exec_all ''see [1]: [[A|B]] [[C]] [[A|b]] [[D| ]]''))
     = {(''A'', Some ''b''), (''A'', Some ''B'')}"
    by (simp add: insert_commute)
  from extractAliases_lists [where str = "''see [1]: [[A|B]] [[C]] [[A|b]] [[D| ]]''", THEN conjunct2] s
  have y: "extractAliases ''see [1]: [[A|B]] [[C]] [[A|b]] [[D| ]]'' = Inr [(''A'', [''b''])]"
    by (rule mp)
  have e: "extractAliases ''[[T|zeta]] [[T|Alpha]] [[T|ALPHA]]'' = Inr [(''T'', [''alpha'', ''zeta''])]"
    by code_simp
  from extractAliases_lists
         [where doc = "''[[T|zeta]] [[T|Alpha]] [[T|ALPHA]]''"
            and aliasMap = "[(''T'', [''alpha'', ''zeta''])]", THEN conjunct1, rule_format, OF e]
  have "sorted [''alpha'', ''zeta''] \<and> distinct [''alpha'', ''zeta'']
        \<and> (\<forall>a\<in>set [''alpha'', ''zeta'']. toLowerCase a = a)"
    by simp
  then have b: "sorted [''alpha'', ''zeta'']" "distinct [''alpha'', ''zeta'']"
    "toLowerCase ''alpha'' = ''alpha''" "toLowerCase ''zeta'' = ''zeta''"
    by simp_all
  from x f y e b show ?thesis by (intro conjI) assumption+
qed

text \<open>
  Containing both links is not enough for that result: the map has one entry for each
  target, so a third link with a target and an alias of its own adds a second entry.
\<close>

theorem extractAliases_other_links:
  "set (filter aliased (exec_all ''[[A|b]] [[A|B]] [[C|d]]''))
     = {(''A'', Some ''b''), (''A'', Some ''B''), (''C'', Some ''d'')}
   \<and> extractAliases ''[[A|b]] [[A|B]] [[C|d]]'' = Inr [(''A'', [''b'']), (''C'', [''d''])]
   \<and> extractAliases ''[[A|b]] [[A|B]] [[C|d]]'' \<noteq> Inr [(''A'', [''b''])]"
proof -
  have "filter aliased (exec_all ''[[A|b]] [[A|B]] [[C|d]]'')
     = [(''A'', Some ''b''), (''A'', Some ''B''), (''C'', Some ''d'')]"
    by code_simp
  then have a: "set (filter aliased (exec_all ''[[A|b]] [[A|B]] [[C|d]]''))
     = {(''A'', Some ''b''), (''A'', Some ''B''), (''C'', Some ''d'')}"
    by simp
  have b: "extractAliases ''[[A|b]] [[A|B]] [[C|d]]'' = Inr [(''A'', [''b'']), (''C'', [''d''])]"
    by code_simp
  then have c: "extractAliases ''[[A|b]] [[A|B]] [[C|d]]'' \<noteq> Inr [(''A'', [''b''])]"
    by simp
  from a b c show ?thesis by (intro conjI) assumption+
qed

text \<open>
  The texts made of the two links, in either order, with no opening bracket before,
  between or after them are among those of the second part.
\<close>

lemma extractAliases_two_links:
  assumes "CHR ''['' \<notin> set pre \<union> set mid \<union> set post"
  shows "extractAliases (pre @ ''[[A|b]]'' @ mid @ ''[[A|B]]'' @ post) = Inr [(''A'', [''b''])]"
    and "extractAliases (pre @ ''[[A|B]]'' @ mid @ ''[[A|b]]'' @ post) = Inr [(''A'', [''b''])]"
proof -
  from assms have "exec_all (pre @ ''[[A|b]]'' @ mid @ ''[[A|B]]'' @ post)
         = [(''A'', Some ''b''), (''A'', Some ''B'')]"
    by (intro exec_all_two_links) auto
  then show "extractAliases (pre @ ''[[A|b]]'' @ mid @ ''[[A|B]]'' @ post) = Inr [(''A'', [''b''])]"
    by (simp only: extractAliases_def add_two_links) simp
  from assms have "exec_all (pre @ ''[[A|B]]'' @ mid @ ''[[A|b]]'' @ post)
         = [(''A'', Some ''B''), (''A'', Some ''b'')]"
    by (intro exec_all_two_links_rev) auto
  then show "extractAliases (pre @ ''[[A|B]]'' @ mid @ ''[[A|b]]'' @ post) = Inr [(''A'', [''b''])]"
    by (simp only: extractAliases_def add_two_links_rev) simp
qed

text \<open>
  C8. A link whose target or alias text contains a line break is never extracted. The
  text of every match of the pattern is \<open>[[g]]\<close> or \<open>[[g|a]]\<close> for its captures \<open>g\<close> and
  \<open>a\<close>, and neither capture contains a line terminator; so it is for every match that
  the scan of a text finds, and no key and no alias of the map that \<open>extractAliases\<close>
  returns contains a line terminator.
\<close>
theorem extractAliases_no_line_break:
  "(match_here s = Some (g, a, r) \<longrightarrow>
      s = ''[['' @ g @ (case a of None \<Rightarrow> [] | Some x \<Rightarrow> CHR ''|'' # x) @ '']]'' @ r
      \<and> (\<forall>c\<in>set g. \<not> lineTerminator c)
      \<and> (\<forall>x. a = Some x \<longrightarrow> (\<forall>c\<in>set x. \<not> lineTerminator c)))
   \<and> (\<forall>(g, a)\<in>set (exec_all doc).
        (\<forall>c\<in>set g. \<not> lineTerminator c)
        \<and> (\<forall>x. a = Some x \<longrightarrow> (\<forall>c\<in>set x. \<not> lineTerminator c)))
   \<and> (extractAliases doc = Inr aliasMap \<longrightarrow>
        (\<forall>(note, aliases)\<in>set aliasMap.
           (\<forall>c\<in>set note. \<not> lineTerminator c)
           \<and> (\<forall>alias\<in>set aliases. \<forall>c\<in>set alias. \<not> lineTerminator c)))"
proof -
  have 1: "s = ''[['' @ g @ (case a of None \<Rightarrow> [] | Some x \<Rightarrow> CHR ''|'' # x) @ '']]'' @ r
      \<and> (\<forall>c\<in>set g. \<not> lineTerminator c)
      \<and> (\<forall>x. a = Some x \<longrightarrow> (\<forall>c\<in>set x. \<not> lineTerminator c))"
    if "match_here s = Some (g, a, r)"
    using match_here_text [OF that] match_here_no_lineTerminator [OF that] by blast
  have 2: "\<forall>(g, a)\<in>set (exec_all doc).
        (\<forall>c\<in>set g. \<not> lineTerminator c)
        \<and> (\<forall>x. a = Some x \<longrightarrow> (\<forall>c\<in>set x. \<not> lineTerminator c))"
  proof (intro ballI, clarify)
    fix g a
    assume "(g, a) \<in> set (exec_all doc)"
    then show "(\<forall>c\<in>set g. \<not> lineTerminator c)
        \<and> (\<forall>x. a = Some x \<longrightarrow> (\<forall>c\<in>set x. \<not> lineTerminator c))"
      by (rule exec_all_no_lineTerminator)
  qed
  have 3: "\<forall>(note, aliases)\<in>set aliasMap.
           (\<forall>c\<in>set note. \<not> lineTerminator c)
           \<and> (\<forall>alias\<in>set aliases. \<forall>c\<in>set alias. \<not> lineTerminator c)"
    if e: "extractAliases doc = Inr aliasMap"
  proof -
    have t: "\<forall>c\<in>set (trim x). \<not> lineTerminator c" if "\<forall>c\<in>set x. \<not> lineTerminator c" for x
      using that set_trim [of x] by blast
    have l: "\<forall>c\<in>set (toLowerCase x). \<not> lineTerminator c" if "\<forall>c\<in>set x. \<not> lineTerminator c" for x
      using that by (simp add: toLowerCase_def lineTerminator_toLowerCase_unit)
    have "\<forall>(g, a)\<in>set (exec_all doc).
            (\<forall>c\<in>set (trim g). \<not> lineTerminator c)
            \<and> (\<forall>x. a = Some x \<longrightarrow> (\<forall>c\<in>set (toLowerCase (trim x)). \<not> lineTerminator c))"
    proof (intro ballI, clarify)
      fix g a
      assume m: "(g, a) \<in> set (exec_all doc)"
      note n = exec_all_no_lineTerminator [OF m]
      from n have "\<forall>c\<in>set (trim g). \<not> lineTerminator c" by (intro t) simp
      moreover have "\<forall>c\<in>set (toLowerCase (trim x)). \<not> lineTerminator c" if "a = Some x" for x
        using n that by (intro l t) simp
      ultimately show "(\<forall>c\<in>set (trim g). \<not> lineTerminator c)
            \<and> (\<forall>x. a = Some x \<longrightarrow> (\<forall>c\<in>set (toLowerCase (trim x)). \<not> lineTerminator c))"
        by simp
    qed
    with e have "\<forall>(note, aliases)\<in>set aliasMap.
           (\<forall>c\<in>set note. \<not> lineTerminator c) \<and> sorted aliases \<and> distinct aliases
           \<and> (\<forall>a\<in>set aliases. \<forall>c\<in>set a. \<not> lineTerminator c)"
      by (rule extractAliases_ok
            [where K = "\<lambda>k. \<forall>c\<in>set k. \<not> lineTerminator c"
               and P = "\<lambda>a. \<forall>c\<in>set a. \<not> lineTerminator c"])
    then show ?thesis by (simp add: split_beta)
  qed
  from 1 have 1: "match_here s = Some (g, a, r) \<longrightarrow>
      s = ''[['' @ g @ (case a of None \<Rightarrow> [] | Some x \<Rightarrow> CHR ''|'' # x) @ '']]'' @ r
      \<and> (\<forall>c\<in>set g. \<not> lineTerminator c)
      \<and> (\<forall>x. a = Some x \<longrightarrow> (\<forall>c\<in>set x. \<not> lineTerminator c))"
    by (rule impI)
  from 3 have 3: "extractAliases doc = Inr aliasMap \<longrightarrow>
        (\<forall>(note, aliases)\<in>set aliasMap.
           (\<forall>c\<in>set note. \<not> lineTerminator c)
           \<and> (\<forall>alias\<in>set aliases. \<forall>c\<in>set alias. \<not> lineTerminator c))"
    by (rule impI)
  from 1 2 3 show ?thesis by (intro conjI) assumption+
qed

theorem extractAliases_no_line_break_witness:
  "match_here (''[[a'' @ [CHR 0x0A] @ ''b|c]] [[d|e]]'') = None
   \<and> match_here ''[[d|e]]'' = Some (''d'', Some ''e'', [])
   \<and> exec_all (''[[a'' @ [CHR 0x0A] @ ''b|c]] [[d|e]]'') = [(''d'', Some ''e'')]
   \<and> extractAliases (''[[a'' @ [CHR 0x0A] @ ''b|c]] [[d|e]]'') = Inr [(''d'', [''e''])]
   \<and> \<not> lineTerminator (CHR ''d'') \<and> \<not> lineTerminator (CHR ''e'')"
proof -
  have m: "match_here (''[[a'' @ [CHR 0x0A] @ ''b|c]] [[d|e]]'') = None"
    "match_here ''[[d|e]]'' = Some (''d'', Some ''e'', [])"
    by code_simp+
  have x: "exec_all (''[[a'' @ [CHR 0x0A] @ ''b|c]] [[d|e]]'') = [(''d'', Some ''e'')]"
    by code_simp
  have e: "extractAliases (''[[a'' @ [CHR 0x0A] @ ''b|c]] [[d|e]]'') = Inr [(''d'', [''e''])]"
    by code_simp
  from extractAliases_no_line_break
         [of "''[[d|e]]''" "''d''" "Some ''e''" "[]" "''[[a'' @ [CHR 0x0A] @ ''b|c]] [[d|e]]''"
             "[(''d'', [''e''])]"] m x e
  show ?thesis by simp
qed

section \<open>Properties of the pipeline\<close>

text \<open>
  C9. \<open>updateFrontmatter\<close> changes the \<open>aliases\<close> field of the target's frontmatter
  and nothing else: every other field of the target, and every field of every other
  file, is as before; when the update fails, no field changes at all.
\<close>
theorem updateFrontmatter_only_aliases:
  "(\<forall>f k. f \<noteq> file \<or> k \<noteq> ''aliases'' \<longrightarrow>
      frontmatter (snd (updateFrontmatter file aliases s)) f k = frontmatter s f k)
   \<and> (fst (updateFrontmatter file aliases s) \<noteq> None \<longrightarrow>
        frontmatter (snd (updateFrontmatter file aliases s)) = frontmatter s)"
proof -
  have 1: "frontmatter (snd (updateFrontmatter file aliases s)) f k = frontmatter s f k"
    if "f \<noteq> file \<or> k \<noteq> ''aliases''" for f k
  proof (cases "fmRejects s file")
    case True
    then show ?thesis
      by (simp add: updateFrontmatter_processFrontMatter frontmatter_processFrontMatter)
  next
    case False
    show ?thesis
    proof (cases "update_aliases aliases (frontmatter s file)")
      case (Inl e)
      with False show ?thesis
        by (simp add: updateFrontmatter_processFrontMatter frontmatter_processFrontMatter)
    next
      case (Inr fm)
      have "fm k = frontmatter s file k" if "k \<noteq> ''aliases''"
        using Inr that by (rule update_aliases_other_keys)
      with False Inr \<open>f \<noteq> file \<or> k \<noteq> ''aliases''\<close> show ?thesis
        by (auto simp: updateFrontmatter_processFrontMatter frontmatter_processFrontMatter)
    qed
  qed
  have 2: "frontmatter (snd (updateFrontmatter file aliases s)) = frontmatter s"
    if "fst (updateFrontmatter file aliases s) \<noteq> None"
    using that
    by (auto simp: updateFrontmatter_processFrontMatter frontmatter_processFrontMatter
          fst_processFrontMatter split: sum.splits if_splits)
  from 1 2 show ?thesis by blast
qed

theorem updateFrontmatter_only_aliases_witness:
  "frontmatter (snd (updateFrontmatter 2 [''plan'', ''roadmap''] example)) 2 ''title''
     = frontmatter example 2 ''title''
   \<and> frontmatter example 2 ''title'' = Some (YStr ''Plan'')
   \<and> frontmatter (snd (updateFrontmatter 2 [''plan'', ''roadmap''] example)) 3 ''aliases''
     = frontmatter example 3 ''aliases''
   \<and> frontmatter example 2 ''aliases'' = Some (YSeq [YStr ''plan''])
   \<and> frontmatter (snd (updateFrontmatter 2 [''plan'', ''roadmap''] example)) 2 ''aliases''
     = Some (YSeq [YStr ''plan'', YStr ''roadmap''])
   \<and> fst (updateFrontmatter 2 [''plan'', ''roadmap''] (example\<lparr>fmRejects := (\<lambda>f. f = 2)\<rparr>))
     = Some IOError
   \<and> frontmatter (snd (updateFrontmatter 2 [''plan'', ''roadmap'']
        (example\<lparr>fmRejects := (\<lambda>f. f = 2)\<rparr>))) 2 ''aliases'' = Some (YSeq [YStr ''plan''])"
proof -
  have a: "frontmatter example 2 ''title'' = Some (YStr ''Plan'')"
    "frontmatter example 2 ''aliases'' = Some (YSeq [YStr ''plan''])"
    by (simp_all add: example_def)
  have b: "frontmatter (snd (updateFrontmatter 2 [''plan'', ''roadmap''] example)) 2 ''aliases''
     = Some (YSeq [YStr ''plan'', YStr ''roadmap''])"
    by code_simp
  note f = updateFrontmatter_only_aliases
    [of 2 "[''plan'', ''roadmap'']" example, THEN conjunct1, rule_format]
  have c: "frontmatter (snd (updateFrontmatter 2 [''plan'', ''roadmap''] example)) 2 ''title''
     = frontmatter example 2 ''title''"
    by (rule f) simp
  have d: "frontmatter (snd (updateFrontmatter 2 [''plan'', ''roadmap''] example)) 3 ''aliases''
     = frontmatter example 3 ''aliases''"
    by (rule f) simp
  have e: "fst (updateFrontmatter 2 [''plan'', ''roadmap''] (example\<lparr>fmRejects := (\<lambda>f. f = 2)\<rparr>))
     = Some IOError"
    by code_simp
  from updateFrontmatter_only_aliases
    [of 2 "[''plan'', ''roadmap'']" "example\<lparr>fmRejects := (\<lambda>f. f = 2)\<rparr>", THEN conjunct2] e
  have "frontmatter (snd (updateFrontmatter 2 [''plan'', ''roadmap'']
        (example\<lparr>fmRejects := (\<lambda>f. f = 2)\<rparr>))) = frontmatter (example\<lparr>fmRejects := (\<lambda>f. f = 2)\<rparr>)"
    by simp
  with a have g: "frontmatter (snd (updateFrontmatter 2 [''plan'', ''roadmap'']
        (example\<lparr>fmRejects := (\<lambda>f. f = 2)\<rparr>))) 2 ''aliases'' = Some (YSeq [YStr ''plan''])"
    by simp
  from a b c d e g show ?thesis by (intro conjI) assumption+
qed

text \<open>
  The gate of \<open>processFile\<close> as the code has it: the document is read exactly when the
  text made of \<open>^\<close>, the configured pattern and \<open>$\<close> is a regular expression that
  finds a match in the document's base name; when it does not, \<open>processFile\<close> returns
  without reading content and without writing metadata.
\<close>

lemma processFile_pattern_gate:
  "((\<exists>more. io (processFile file s) = io s @ Read file # more)
      \<longleftrightarrow> (\<exists>regex. RegExp s (''^'' @ fileRegex (settings s) @ ''$'') = Some regex
                    \<and> regex (basename (files s file))))
   \<and> (\<not> (\<exists>regex. RegExp s (''^'' @ fileRegex (settings s) @ ''$'') = Some regex
                    \<and> regex (basename (files s file)))
        \<longrightarrow> io (processFile file s) = io s \<and> frontmatter (processFile file s) = frontmatter s)"
proof -
  define s0 where "s0 = s\<lparr>calls := calls s @ [(now s, file)]\<rparr>"
  have s0: "RegExp s0 = RegExp s" "settings s0 = settings s" "files s0 = files s"
    "io s0 = io s" "frontmatter s0 = frontmatter s"
    by (simp_all add: s0_def)
  let ?m = "\<exists>regex. RegExp s (''^'' @ fileRegex (settings s) @ ''$'') = Some regex
                    \<and> regex (basename (files s file))"
  have yes: "\<exists>more. io (processFile file s) = io s @ Read file # more" if ?m
  proof -
    from that obtain regex
      where "RegExp s0 (''^'' @ fileRegex (settings s0) @ ''$'') = Some regex"
        and "regex (basename (files s0 file))"
      unfolding s0 by blast
    then have "effects_only (s0\<lparr>io := io s0 @ [Read file]\<rparr>) (snd (processFile_try file s0))"
      by (rule processFile_try_match)
    then obtain more where "io (snd (processFile_try file s0)) = (io s0 @ [Read file]) @ more"
      by (auto simp: effects_only_def)
    then show ?thesis
      by (simp add: io_processFile s0_def)
  qed
  have no: "io (processFile file s) = io s \<and> frontmatter (processFile file s) = frontmatter s"
    if "\<not> ?m"
  proof -
    from that have "\<not> (\<exists>regex. RegExp s0 (''^'' @ fileRegex (settings s0) @ ''$'') = Some regex
                    \<and> regex (basename (files s0 file)))"
      unfolding s0 .
    then have "snd (processFile_try file s0) = s0"
      by (rule processFile_try_no_match)
    then show ?thesis
      by (simp add: io_processFile frontmatter_processFile s0 flip: s0_def)
  qed
  have onlyif: "?m" if r: "\<exists>more. io (processFile file s) = io s @ Read file # more"
  proof (rule ccontr)
    assume "\<not> ?m"
    then have "io (processFile file s) = io s" using no by simp
    with r show False by simp
  qed
  from yes onlyif have "(\<exists>more. io (processFile file s) = io s @ Read file # more) \<longleftrightarrow> ?m"
    by (rule iffI [rotated])
  moreover from no
  have "\<not> ?m \<longrightarrow> io (processFile file s) = io s \<and> frontmatter (processFile file s) = frontmatter s"
    by (rule impI)
  ultimately show ?thesis by (rule conjI)
qed

lemma processFile_pattern_gate_example:
  "RegExp example (''^'' @ fileRegex (settings example) @ ''$'') = Some date_name
   \<and> date_name (basename (files example 1))
   \<and> io (processFile 1 example) = io example @ Read 1 # [ProcessFrontMatter 2, ProcessFrontMatter 3, ProcessFrontMatter 5]
   \<and> basename (files example 4) = ''notes''
   \<and> \<not> date_name (basename (files example 4))
   \<and> io (processFile 4 example) = io example
   \<and> frontmatter (processFile 4 example) = frontmatter example"
proof -
  have r: "RegExp example (''^'' @ fileRegex (settings example) @ ''$'') = Some date_name"
    by (simp add: example_def)
  have d1: "date_name (basename (files example 1))"
    by (simp add: example_def date_name_def)
  have b4: "basename (files example 4) = ''notes''"
    by (simp add: example_def)
  have d4: "\<not> date_name (basename (files example 4))"
    by (simp add: example_def date_name_def)
  have i1: "io (processFile 1 example) = io example @ Read 1 # [ProcessFrontMatter 2, ProcessFrontMatter 3, ProcessFrontMatter 5]"
    by code_simp
  from r d4 have "\<not> (\<exists>regex. RegExp example (''^'' @ fileRegex (settings example) @ ''$'') = Some regex
                    \<and> regex (basename (files example 4)))"
    by simp
  with processFile_pattern_gate [of 4 example, THEN conjunct2]
  have n: "io (processFile 4 example) = io example \<and> frontmatter (processFile 4 example) = frontmatter example"
    by (rule mp)
  from r d1 b4 d4 i1 n show ?thesis by (intro conjI) (assumption | erule conjunct1 | erule conjunct2)+
qed

text \<open>
  For a pattern of letters and digits that is the gate of the claim: the document is read
  exactly when the pattern matches its entire base name.
\<close>

lemma processFile_literal_pattern:
  assumes "RegExp s = literal_RegExp" and "list_all literal (fileRegex (settings s))"
  shows "(\<exists>more. io (processFile file s) = io s @ Read file # more)
           \<longleftrightarrow> entire_match (fileRegex (settings s)) (basename (files s file))"
proof -
  let ?p = "fileRegex (settings s)"
  have r: "RegExp s (''^'' @ ?p @ ''$'') = Some (match_literal (''^'' @ ?p @ ''$''))"
    unfolding assms(1) using assms(2) by (rule match_literal_anchored(1))
  have "(\<exists>regex. RegExp s (''^'' @ ?p @ ''$'') = Some regex \<and> regex (basename (files s file)))
          = match_literal (''^'' @ ?p @ ''$'') (basename (files s file))"
    unfolding r by simp
  also have "\<dots> = entire_match ?p (basename (files s file))"
    using assms(2) by (simp only: match_literal_anchored(2,3))
  finally show ?thesis
    using processFile_pattern_gate [of "file" s, THEN conjunct1] by simp
qed

text \<open>
  C5. The document is to be processed if and only if the pattern matches its entire base
  name. \<open>processFile\<close> writes the anchors around the text of the pattern
  (the template \<^verbatim>\<open>^${this.settings.fileRegex}$\<close>), so with a pattern that has an
  alternation they bind to its first and last alternative only: for the pattern \<open>a|b\<close>
  the expression is \<open>^a|b$\<close>, which finds a match in every name that starts with \<open>a\<close> or
  ends with \<open>b\<close>. The pattern \<open>a|b\<close> does not match the name \<open>ax\<close> entirely, yet
  \<open>processFile\<close> reads \<open>ax.md\<close> and writes the alias of its link into the
  frontmatter of the link's target.
\<close>
theorem processFile_reads_on_partial_match:
  "fileRegex (settings alternation_example) = ''a|b''
   \<and> basename (files alternation_example 4) = ''ax''
   \<and> \<not> entire_match ''a|b'' ''ax''
   \<and> map_option (\<lambda>regex. regex ''ax'') (RegExp alternation_example ''^a|b$'') = Some True
   \<and> io alternation_example = []
   \<and> io (processFile 4 alternation_example) = [Read 4, ProcessFrontMatter 3]
   \<and> frontmatter alternation_example 3 ''aliases'' = None
   \<and> frontmatter (processFile 4 alternation_example) 3 ''aliases'' = Some (YSeq [YStr ''thoughts''])"
  by code_simp

text \<open>
  C2 (as amended). An error while updating one target's metadata ends the whole call:
  the targets before it in the order of the map's entries keep their updates, the
  failing target and all remaining targets are left unwritten (the remaining ones are
  not even resolved), and the error is shown in one notice.
\<close>
theorem processFile_stops_at_first_error:
  assumes "RegExp s (''^'' @ fileRegex (settings s) @ ''$'') = Some regex"
    and "regex (basename (files s file))"
    and "content s file = Some doc"
    and "extractAliases doc = Inr aliasMap"
    and "Object_entries aliasMap = before @ (targetNote, aliases) # remaining"
    and "fst (update_targets file before 0
               (s\<lparr>calls := calls s @ [(now s, file)], io := io s @ [Read file]\<rparr>)) = Inr n"
    and "s1 = snd (update_targets file before 0
               (s\<lparr>calls := calls s @ [(now s, file)], io := io s @ [Read file]\<rparr>))"
    and "linkpathDest s targetNote (path (files s file)) = Some targetFile"
    and "extension (files s targetFile) = ''md''"
    and "fst (updateFrontmatter targetFile aliases s1) = Some e"
  shows "frontmatter (processFile file s) = frontmatter s1
         \<and> io (processFile file s) = io s1 @ [ProcessFrontMatter targetFile]
         \<and> notices (processFile file s) = notices s1 @ [NoticeError (basename (files s file)) e]"
proof -
  define s0 where "s0 = s\<lparr>calls := calls s @ [(now s, file)], io := io s @ [Read file]\<rparr>"
  define s2 where "s2 = snd (updateFrontmatter targetFile aliases s1)"
  have b: "update_targets file before 0 s0 = (Inr n, s1)"
    using assms(6,7) unfolding s0_def by (simp add: prod_eq_iff)
  have "effects_only s0 s1"
    using update_targets_effects_only [of s0 "file" before 0] b by simp
  then have k: "linkpathDest s1 = linkpathDest s" "files s1 = files s"
    by (simp_all add: effects_only_def s0_def)
  have u: "updateFrontmatter targetFile aliases s1 = (Some e, s2)"
    using assms(10) unfolding s2_def by (simp add: prod_eq_iff)
  have "update_targets file ((targetNote, aliases) # remaining) n s1 = (Inl e, s2)"
    using assms(8,9) k u by simp
  with b have l: "update_targets file (Object_entries aliasMap) 0 s0 = (Inl e, s2)"
    unfolding assms(5) by (simp add: update_targets_append)
  have "Object_keys aliasMap \<noteq> []"
    by (simp add: Object_keys_def assms(5))
  with assms(1,2,3,4) l
  have t: "processFile_try file (s\<lparr>calls := calls s @ [(now s, file)]\<rparr>) = (Some e, s2)"
    by (simp add: processFile_try_def s0_def)
  have "effects_only s1 s2"
    using updateFrontmatter_effects_only [of s1 targetFile aliases] by (simp add: s2_def)
  then have f: "files s2 = files s" using k by (simp add: effects_only_def)
  from t f have p: "processFile file s =
      s2\<lparr>console := console s2 @ [ErrorProcessing (path (files s file)) e],
         notices := notices s2 @ [NoticeError (basename (files s file)) e]\<rparr>"
    by (simp add: processFile_def)
  from updateFrontmatter_error [OF assms(10)] p show ?thesis
    by (simp add: s2_def)
qed

theorem processFile_stops_at_first_error_witness:
  "extractAliases ''Some text [[Project Plan|plan]] more [[Project Plan|Roadmap]], [[Ideas|Brainstorm]] and [[Archive|old]]''
     = Inr [(''Project Plan'', [''plan'', ''roadmap'']), (''Ideas'', [''brainstorm'']),
            (''Archive'', [''old''])]
   \<and> fst (updateFrontmatter 3 [''brainstorm'']
          (snd (update_targets 1 [(''Project Plan'', [''plan'', ''roadmap''])] 0
             (example\<lparr>fmRejects := (\<lambda>f. f = 3),
                calls := calls example @ [(now example, 1)],
                io := io example @ [Read 1]\<rparr>)))) = Some IOError
   \<and> io (processFile 1 (example\<lparr>fmRejects := (\<lambda>f. f = 3)\<rparr>))
       = [Read 1, ProcessFrontMatter 2, ProcessFrontMatter 3]
   \<and> notices (processFile 1 (example\<lparr>fmRejects := (\<lambda>f. f = 3)\<rparr>))
       = [NoticeError ''2024-01-01'' IOError]
   \<and> frontmatter (processFile 1 (example\<lparr>fmRejects := (\<lambda>f. f = 3)\<rparr>)) 2 ''aliases''
       = Some (YSeq [YStr ''plan'', YStr ''roadmap''])
   \<and> frontmatter (processFile 1 (example\<lparr>fmRejects := (\<lambda>f. f = 3)\<rparr>)) 5 ''aliases'' = None"
proof -
  define s where "s = example\<lparr>fmRejects := (\<lambda>f. f = 3)\<rparr>"
  define doc where "doc = ''Some text [[Project Plan|plan]] more [[Project Plan|Roadmap]], [[Ideas|Brainstorm]] and [[Archive|old]]''"
  define aliasMap where "aliasMap = [(''Project Plan'', [''plan'', ''roadmap'']),
     (''Ideas'', [''brainstorm'']), (''Archive'', [''old''])]"
  define s1 where "s1 = snd (update_targets 1 [(''Project Plan'', [''plan'', ''roadmap''])] 0
               (s\<lparr>calls := calls s @ [(now s, 1)], io := io s @ [Read 1]\<rparr>))"
  have h1: "RegExp s (''^'' @ fileRegex (settings s) @ ''$'') = Some date_name"
    by (simp add: s_def example_def)
  have h2: "date_name (basename (files s 1))"
    by (simp add: s_def example_def date_name_def)
  have h3: "content s 1 = Some doc"
    by (simp add: s_def example_def doc_def)
  have h4: "extractAliases doc = Inr aliasMap"
    unfolding doc_def aliasMap_def by code_simp
  have h5: "Object_entries aliasMap
     = [(''Project Plan'', [''plan'', ''roadmap''])] @ (''Ideas'', [''brainstorm'']) # [(''Archive'', [''old''])]"
    by (simp add: aliasMap_def Object_entries_def arrayIndex_def)
  have h6: "fst (update_targets 1 [(''Project Plan'', [''plan'', ''roadmap''])] 0
               (s\<lparr>calls := calls s @ [(now s, 1)], io := io s @ [Read 1]\<rparr>)) = Inr 1"
    unfolding s_def by code_simp
  have h8: "linkpathDest s ''Ideas'' (path (files s 1)) = Some 3"
    by (simp add: s_def example_def)
  have h9: "extension (files s 3) = ''md''"
    by (simp add: s_def example_def)
  have h10: "fst (updateFrontmatter 3 [''brainstorm''] s1) = Some IOError"
    unfolding s1_def s_def by code_simp
  note t = processFile_stops_at_first_error [OF h1 h2 h3 h4 h5 h6 s1_def h8 h9 h10]
  have e1: "io s1 = [Read 1, ProcessFrontMatter 2]"
    unfolding s1_def s_def by code_simp
  have e2: "notices s1 = []"
    unfolding s1_def s_def by code_simp
  have e3: "frontmatter s1 2 ''aliases'' = Some (YSeq [YStr ''plan'', YStr ''roadmap''])"
    unfolding s1_def s_def by code_simp
  have e4: "frontmatter s1 5 ''aliases'' = None"
    unfolding s1_def s_def by code_simp
  have b: "basename (files s 1) = ''2024-01-01''"
    by (simp add: s_def example_def)
  from t e1 e2 e3 e4 b have
    "io (processFile 1 s) = [Read 1, ProcessFrontMatter 2, ProcessFrontMatter 3]"
    "notices (processFile 1 s) = [NoticeError ''2024-01-01'' IOError]"
    "frontmatter (processFile 1 s) 2 ''aliases'' = Some (YSeq [YStr ''plan'', YStr ''roadmap''])"
    "frontmatter (processFile 1 s) 5 ''aliases'' = None"
    by simp_all
  with h4 h10 show ?thesis
    unfolding s_def s1_def doc_def aliasMap_def
    by simp
qed

text \<open>
  As stated, C2 fails: when the update of \<open>Ideas\<close> is rejected, \<open>Archive\<close>, which
  comes after it, resolves and would accept the write, is not touched.
\<close>

theorem processFile_error_skips_remaining_targets:
  "linkpathDest example ''Archive'' (path (files example 1)) = Some 5
   \<and> extension (files example 5) = ''md''
   \<and> frontmatter (processFile 1 example) 5 ''aliases'' = Some (YSeq [YStr ''old''])
   \<and> io (processFile 1 example)
       = [Read 1, ProcessFrontMatter 2, ProcessFrontMatter 3, ProcessFrontMatter 5]
   \<and> frontmatter (processFile 1 (example\<lparr>fmRejects := (\<lambda>f. f = 3)\<rparr>)) 5 ''aliases'' = None
   \<and> io (processFile 1 (example\<lparr>fmRejects := (\<lambda>f. f = 3)\<rparr>))
       = [Read 1, ProcessFrontMatter 2, ProcessFrontMatter 3]"
  by code_simp

section \<open>Properties of the scheduler\<close>

text \<open>
  C6. One timer is shared by all content-modify events. From a load with no timer
  pending, at most one timer is pending at any time, and it is the one \<open>timeout\<close>
  names. Each modify event cancels the pending timer and arms a new one for its own
  argument, due \<open>wait\<close> milliseconds later, whichever document the pending one was
  for. So a burst of modify events, each less than \<open>wait\<close> before the next, gives no
  call of \<open>processFile\<close>, and the last event gives one call, \<open>wait\<close> after it, if its
  file is then the active one. In particular two modify events for the same active
  document, 200 ms apart with a wait of 1000 ms, give no call before 1000 ms have
  passed since the second event, and exactly one call then.
\<close>

theorem debounce_single_shared_timer:
  "(timers s = [] \<longrightarrow> shared_timer (run events (onload s)))
   \<and> (shared_timer s \<and> registered s = Some w \<longrightarrow>
        timers (step (Modify arg) s) = [(nextTimer s, now s + nat w, arg)]
        \<and> timeout (step (Modify arg) s) = Some (nextTimer s))
   \<and> (shared_timer s \<and> registered s = Some w \<and> (\<forall>(a, gap)\<in>set xs. gap < nat w)
        \<and> nat w \<le> d \<and> extension (files s f) = ''md'' \<and> activeFile s = Some f \<longrightarrow>
        calls (run (burst xs) s) = calls s
        \<and> calls (run (burst xs @ [Modify (Some f), Elapse d]) s)
            = calls s @ [(now s + sum_list (map snd xs) + nat w, f)])
   \<and> (shared_timer s \<and> registered s = Some 1000
        \<and> extension (files s f) = ''md'' \<and> activeFile s = Some f \<longrightarrow>
        calls (run [Modify (Some f), Elapse 200, Modify (Some f)] s) = calls s
        \<and> (d < 1000 \<longrightarrow>
             calls (run [Modify (Some f), Elapse 200, Modify (Some f), Elapse d] s) = calls s)
        \<and> (1000 \<le> d \<longrightarrow>
             calls (run [Modify (Some f), Elapse 200, Modify (Some f), Elapse d] s)
               = calls s @ [(now s + 1200, f)]
             \<and> timers (run [Modify (Some f), Elapse 200, Modify (Some f), Elapse d] s) = []))"
proof -
  have 1: "shared_timer (run events (onload s))" if "timers s = []"
  proof -
    have "timers (onload s) = []"
      using that by (simp add: onload_def loadSettings_def Let_def)
    then have "shared_timer (onload s)" by (simp add: shared_timer_def)
    then show ?thesis by (rule run_shared_timer)
  qed
  have 2: "timers (step (Modify arg) s) = [(nextTimer s, now s + nat w, arg)]
        \<and> timeout (step (Modify arg) s) = Some (nextTimer s)"
    if "shared_timer s \<and> registered s = Some w"
    using that by (simp add: debounced_shared_timer debounced_scheduler)
  have 3: "calls (run (burst xs) s) = calls s
        \<and> calls (run (burst xs @ [Modify (Some f), Elapse d]) s)
            = calls s @ [(now s + sum_list (map snd xs) + nat w, f)]"
    if h: "shared_timer s \<and> registered s = Some w \<and> (\<forall>(a, gap)\<in>set xs. gap < nat w)
        \<and> nat w \<le> d \<and> extension (files s f) = ''md'' \<and> activeFile s = Some f"
  proof -
    from h have a: "shared_timer s" "registered s = Some w" "\<forall>(a, gap)\<in>set xs. gap < nat w"
      "nat w \<le> d" "extension (files s f) = ''md''" "activeFile s = Some f"
      by simp_all
    from burst_quiet [OF a(1,2,3)] burst_then_quiet [OF a] show ?thesis by simp
  qed
  have 4: "calls (run [Modify (Some f), Elapse 200, Modify (Some f)] s) = calls s
        \<and> (d < 1000 \<longrightarrow>
             calls (run [Modify (Some f), Elapse 200, Modify (Some f), Elapse d] s) = calls s)
        \<and> (1000 \<le> d \<longrightarrow>
             calls (run [Modify (Some f), Elapse 200, Modify (Some f), Elapse d] s)
               = calls s @ [(now s + 1200, f)]
             \<and> timers (run [Modify (Some f), Elapse 200, Modify (Some f), Elapse d] s) = [])"
    if h: "shared_timer s \<and> registered s = Some 1000
        \<and> extension (files s f) = ''md'' \<and> activeFile s = Some f"
  proof -
    define s2 where "s2 = elapse 200 (debounced 1000 (Some f) s)"
    from h have st: "shared_timer s" by simp
    have s2: "calls s2 = calls s" "shared_timer s2" "now s2 = now s + 200"
      "files s2 = files s" "activeFile s2 = activeFile s" "registered s2 = registered s"
      unfolding s2_def
      by (simp_all add: debounced_then_elapse [OF st] elapse_scheduler debounced_scheduler)
    have r3: "run [Modify (Some f), Elapse 200, Modify (Some f)] s = debounced 1000 (Some f) s2"
      using h by (simp add: run_def s2_def elapse_scheduler debounced_scheduler)
    have r4: "run [Modify (Some f), Elapse 200, Modify (Some f), Elapse d] s
                = elapse d (debounced 1000 (Some f) s2)"
      using h by (simp add: run_def s2_def elapse_scheduler debounced_scheduler)
    show ?thesis
      unfolding r3 r4 using h
      by (simp add: debounced_then_elapse [OF s2(2)] s2 debounced_scheduler)
  qed
  from 1 2 3 4 show ?thesis by (intro conjI impI) (assumption | simp)+
qed

theorem debounce_single_shared_timer_witness:
  "timers example = []
   \<and> shared_timer (onload example)
   \<and> registered (onload example) = Some 1000
   \<and> extension (files (onload example) 1) = ''md''
   \<and> activeFile (onload example) = Some 1
   \<and> timers (step (Modify (Some 1)) (onload example)) = [(0, 1000, Some 1)]
   \<and> calls (run [Modify (Some 1), Elapse 200, Modify (Some 1), Elapse 999] (onload example)) = []
   \<and> calls (run [Modify (Some 1), Elapse 200, Modify (Some 1), Elapse 1000] (onload example))
       = [(1200, 1)]
   \<and> (300::nat) < nat 1000 \<and> (200::nat) < nat 1000
   \<and> burst [(Some 2, 300), (Some 1, 200)] = [Modify (Some 2), Elapse 300, Modify (Some 1), Elapse 200]
   \<and> calls (run (burst [(Some 2, 300), (Some 1, 200)] @ [Modify (Some 1), Elapse 1000])
         (onload example)) = [(1500, 1)]"
proof -
  have a: "timers example = []" by (simp add: example_def)
  have b: "registered (onload example) = Some 1000" by code_simp
  have c: "extension (files (onload example) 1) = ''md''" by code_simp
  have d: "activeFile (onload example) = Some 1" by code_simp
  have e: "calls (onload example) = []" "now (onload example) = 0"
    "nextTimer (onload example) = 0" by code_simp+
  note t = debounce_single_shared_timer
    [where s = "onload example" and w = 1000 and arg = "Some 1" and f = 1 and d = 1000
       and xs = "[(Some 2, 300), (Some 1, 200)]"]
  note u = debounce_single_shared_timer
    [where s = "onload example" and w = 1000 and arg = "Some 1" and f = 1 and d = 999]
  from debounce_single_shared_timer [where s = example and events = "[]"] a
  have f: "shared_timer (onload example)" by (simp add: run_def)
  from t f b have g: "timers (step (Modify (Some 1)) (onload example))
      = [(nextTimer (onload example), now (onload example) + nat 1000, Some 1)]"
    by simp
  from t f b c d
  have h: "calls (run [Modify (Some 1), Elapse 200, Modify (Some 1), Elapse 1000] (onload example))
       = calls (onload example) @ [(now (onload example) + 1200, 1)]"
    by simp
  from u f b c d
  have i: "calls (run [Modify (Some 1), Elapse 200, Modify (Some 1), Elapse 999] (onload example))
       = calls (onload example)"
    by simp
  have j: "burst [(Some 2, 300), (Some 1, 200)] = [Modify (Some 2), Elapse 300, Modify (Some 1), Elapse 200]"
    by (simp add: burst_def)
  from t f b c d
  have k: "calls (run (burst [(Some 2, 300), (Some 1, 200)] @ [Modify (Some 1), Elapse 1000])
         (onload example))
       = calls (onload example) @ [(now (onload example) + sum_list (map snd [(Some 2, 300), (Some (1::nat), 200::nat)]) + nat 1000, 1)]"
    by simp
  from a b c d e f g h i j k show ?thesis by simp
qed

text \<open>
  C7. When the timer runs, \<open>processFile\<close> is called only if the file of the modify
  event has the extension \<open>md\<close> and is the active file at that moment; otherwise
  nothing happens but the passing of time: no call, no new timer. So if the active
  file changes (or the file is renamed to another extension) between the modify event
  and the timer, no call is made, then or later.
\<close>
theorem debounced_call_gate:
  "calls (fire (i, t, arg) s) =
     (if arg \<noteq> None \<and> extension (files s (the arg)) = ''md'' \<and> activeFile s = arg
      then calls s @ [(max (now s) t, the arg)] else calls s)
   \<and> (\<not> (arg \<noteq> None \<and> extension (files s (the arg)) = ''md'' \<and> activeFile s = arg) \<longrightarrow>
        fire (i, t, arg) s = s\<lparr>now := max (now s) t\<rparr>)
   \<and> (shared_timer s \<and> registered s = Some w \<and> E \<noteq> Some D \<longrightarrow>
        calls (run [Modify (Some D), ActiveFile E, Elapse d] s) = calls s
        \<and> (nat w \<le> d \<longrightarrow> timers (run [Modify (Some D), ActiveFile E, Elapse d] s) = []))
   \<and> (shared_timer s \<and> registered s = Some w \<and> extension tfile \<noteq> ''md'' \<longrightarrow>
        calls (run [Modify (Some D), Rename D tfile, Elapse d] s) = calls s
        \<and> (nat w \<le> d \<longrightarrow> timers (run [Modify (Some D), Rename D tfile, Elapse d] s) = []))"
proof -
  have 1: "calls (fire (i, t, arg) s) =
     (if arg \<noteq> None \<and> extension (files s (the arg)) = ''md'' \<and> activeFile s = arg
      then calls s @ [(max (now s) t, the arg)] else calls s)"
    by (rule calls_fire)
  have 2: "fire (i, t, arg) s = s\<lparr>now := max (now s) t\<rparr>"
    if "\<not> (arg \<noteq> None \<and> extension (files s (the arg)) = ''md'' \<and> activeFile s = arg)"
    using that by (rule fire_skipped)
  have 3: "calls (run [Modify (Some D), ActiveFile E, Elapse d] s) = calls s
        \<and> (nat w \<le> d \<longrightarrow> timers (run [Modify (Some D), ActiveFile E, Elapse d] s) = [])"
    if h: "shared_timer s \<and> registered s = Some w \<and> E \<noteq> Some D"
  proof -
    define s1 where "s1 = (debounced w (Some D) s)\<lparr>activeFile := E\<rparr>"
    from h have st: "shared_timer s" by simp
    have r: "run [Modify (Some D), ActiveFile E, Elapse d] s = elapse d s1"
      using h by (simp add: run_def s1_def)
    have t: "timers s1 = [(nextTimer s, now s + nat w, Some D)]"
      by (simp add: s1_def debounced_shared_timer [OF st])
    have "calls (elapse d s1) = calls s"
      using h by (simp add: calls_elapse_single [OF t]) (simp add: s1_def debounced_scheduler)
    moreover have "timers (elapse d s1) = []" if "nat w \<le> d"
      using that by (simp add: elapse_scheduler t) (simp add: s1_def debounced_scheduler)
    ultimately show ?thesis unfolding r by simp
  qed
  have 4: "calls (run [Modify (Some D), Rename D tfile, Elapse d] s) = calls s
        \<and> (nat w \<le> d \<longrightarrow> timers (run [Modify (Some D), Rename D tfile, Elapse d] s) = [])"
    if h: "shared_timer s \<and> registered s = Some w \<and> extension tfile \<noteq> ''md''"
  proof -
    define s1 where "s1 = (debounced w (Some D) s)\<lparr>files := (files (debounced w (Some D) s))(D := tfile)\<rparr>"
    from h have st: "shared_timer s" by simp
    have r: "run [Modify (Some D), Rename D tfile, Elapse d] s = elapse d s1"
      using h by (simp add: run_def s1_def)
    have t: "timers s1 = [(nextTimer s, now s + nat w, Some D)]"
      by (simp add: s1_def debounced_shared_timer [OF st])
    have "calls (elapse d s1) = calls s"
      using h by (simp add: calls_elapse_single [OF t]) (simp add: s1_def debounced_scheduler)
    moreover have "timers (elapse d s1) = []" if "nat w \<le> d"
      using that by (simp add: elapse_scheduler t) (simp add: s1_def debounced_scheduler)
    ultimately show ?thesis unfolding r by simp
  qed
  from 2 have 2: "\<not> (arg \<noteq> None \<and> extension (files s (the arg)) = ''md'' \<and> activeFile s = arg) \<longrightarrow>
        fire (i, t, arg) s = s\<lparr>now := max (now s) t\<rparr>"
    by (rule impI)
  from 3 have 3: "shared_timer s \<and> registered s = Some w \<and> E \<noteq> Some D \<longrightarrow>
        calls (run [Modify (Some D), ActiveFile E, Elapse d] s) = calls s
        \<and> (nat w \<le> d \<longrightarrow> timers (run [Modify (Some D), ActiveFile E, Elapse d] s) = [])"
    by (rule impI)
  from 4 have 4: "shared_timer s \<and> registered s = Some w \<and> extension tfile \<noteq> ''md'' \<longrightarrow>
        calls (run [Modify (Some D), Rename D tfile, Elapse d] s) = calls s
        \<and> (nat w \<le> d \<longrightarrow> timers (run [Modify (Some D), Rename D tfile, Elapse d] s) = [])"
    by (rule impI)
  from 1 2 3 4 show ?thesis by (intro conjI) assumption+
qed

theorem debounced_call_gate_witness:
  "shared_timer (onload example)
   \<and> registered (onload example) = Some 1000
   \<and> calls (run [Modify (Some 1), Elapse 1000] (onload example)) = [(1000, 1)]
   \<and> calls (run [Modify (Some 1), ActiveFile (Some 2), Elapse 1000] (onload example)) = []
   \<and> timers (run [Modify (Some 1), ActiveFile (Some 2), Elapse 1000] (onload example)) = []
   \<and> calls (run [Modify (Some 1), ActiveFile (Some 2), Elapse 1000, Elapse 5000] (onload example)) = []
   \<and> calls (run [Modify (Some 1),
                  Rename 1 \<lparr>path = ''2024-01-01.txt'', basename = ''2024-01-01'', extension = ''txt''\<rparr>,
                  Elapse 1000] (onload example)) = []
   \<and> activeFile (onload example) \<noteq> Some 2
   \<and> now (fire (0, 1000, Some 2) (onload example)) = 1000
   \<and> calls (fire (0, 1000, Some 2) (onload example)) = []
   \<and> timers (fire (0, 1000, Some 2) (onload example)) = []"
proof -
  have a: "shared_timer (onload example)" by code_simp
  have b: "registered (onload example) = Some 1000" by code_simp
  have c: "calls (onload example) = []" "now (onload example) = 0"
    "timers (onload example) = []" "activeFile (onload example) \<noteq> Some 2" by code_simp+
  have d: "calls (run [Modify (Some 1), Elapse 1000] (onload example)) = [(1000, 1)]"
    by code_simp
  have e: "calls (run [Modify (Some 1), ActiveFile (Some 2), Elapse 1000, Elapse 5000] (onload example)) = []"
    by code_simp
  note t = debounced_call_gate
    [where s = "onload example" and w = 1000 and E = "Some 2" and D = 1 and d = 1000
       and i = 0 and t = 1000 and arg = "Some 2"
       and tfile = "\<lparr>path = ''2024-01-01.txt'', basename = ''2024-01-01'', extension = ''txt''\<rparr>"]
  from t a b c
  have f: "calls (run [Modify (Some 1), ActiveFile (Some 2), Elapse 1000] (onload example)) = []
        \<and> timers (run [Modify (Some 1), ActiveFile (Some 2), Elapse 1000] (onload example)) = []"
    by simp
  from t a b c
  have g: "calls (run [Modify (Some 1),
                  Rename 1 \<lparr>path = ''2024-01-01.txt'', basename = ''2024-01-01'', extension = ''txt''\<rparr>,
                  Elapse 1000] (onload example)) = []"
    by simp
  from t c have h: "fire (0, 1000, Some 2) (onload example)
      = (onload example)\<lparr>now := max (now (onload example)) 1000\<rparr>"
    by simp
  have i: "now (fire (0, 1000, Some 2) (onload example)) = 1000"
    "calls (fire (0, 1000, Some 2) (onload example)) = []"
    "timers (fire (0, 1000, Some 2) (onload example)) = []"
    unfolding h using c by simp_all
  from a b c d e f g i show ?thesis by simp
qed

text \<open>
  C10. The wait of the registered modify handler is the \<open>debounceTimeout\<close> in effect
  when \<open>onload\<close> registers it, and no later event changes it: after a change of the
  setting through the settings tab, which does change and save \<open>debounceTimeout\<close>, the
  next modify event still arms its timer with the wait captured at load.
\<close>
theorem debounce_wait_fixed_at_load:
  "registered (onload s) = Some (debounceTimeout (settings (onload s)))
   \<and> registered (run events (onload s)) = registered (onload s)
   \<and> last (timers (step (Modify arg) (run events (onload s))))
       = (nextTimer (run events (onload s)),
          now (run events (onload s)) + nat (debounceTimeout (settings (onload s))), arg)
   \<and> (parseInt v = Some n \<and> 1000 \<le> n \<and> n \<le> 5000 \<longrightarrow>
        debounceTimeout (settings (step (ChangeDebounceTimeout v) (run events (onload s)))) = n
        \<and> registered (step (ChangeDebounceTimeout v) (run events (onload s)))
            = Some (debounceTimeout (settings (onload s))))"
proof -
  have 1: "registered (onload s) = Some (debounceTimeout (settings (onload s)))"
    by (simp add: onload_def Let_def)
  have 2: "registered (run events (onload s)) = registered (onload s)"
    by (rule run_registered)
  have 3: "last (timers (step (Modify arg) (run events (onload s))))
       = (nextTimer (run events (onload s)),
          now (run events (onload s)) + nat (debounceTimeout (settings (onload s))), arg)"
    using 1 2 by (simp add: debounced_timers)
  have 4: "debounceTimeout (settings (step (ChangeDebounceTimeout v) (run events (onload s)))) = n
        \<and> registered (step (ChangeDebounceTimeout v) (run events (onload s)))
            = Some (debounceTimeout (settings (onload s)))"
    if "parseInt v = Some n \<and> 1000 \<le> n \<and> n \<le> 5000"
    using that 1 2 by (simp add: debounceTimeout_change change_scheduler)
  from 4 have 4: "parseInt v = Some n \<and> 1000 \<le> n \<and> n \<le> 5000 \<longrightarrow>
        debounceTimeout (settings (step (ChangeDebounceTimeout v) (run events (onload s)))) = n
        \<and> registered (step (ChangeDebounceTimeout v) (run events (onload s)))
            = Some (debounceTimeout (settings (onload s)))"
    by (rule impI)
  from 1 2 3 4 show ?thesis by (intro conjI) assumption+
qed

theorem debounce_wait_fixed_at_load_witness:
  "debounceTimeout (settings (onload example)) = 1000
   \<and> parseInt ''3000'' = Some 3000
   \<and> debounceTimeout (settings (run [ChangeDebounceTimeout ''3000''] (onload example))) = 3000
   \<and> registered (run [ChangeDebounceTimeout ''3000''] (onload example)) = Some 1000
   \<and> timers (run [ChangeDebounceTimeout ''3000'', Modify (Some 1)] (onload example))
       = [(0, 1000, Some 1)]"
proof -
  have a: "debounceTimeout (settings (onload example)) = 1000" by code_simp
  have b: "parseInt ''3000'' = Some 3000"
    by (simp add: parseInt_def whiteSpace_def nat_of_digits_def)
  note t = debounce_wait_fixed_at_load
    [where s = example and events = "[]" and v = "''3000''" and n = 3000]
  from t a b
  have c: "debounceTimeout (settings (run [ChangeDebounceTimeout ''3000''] (onload example))) = 3000"
    and d: "registered (run [ChangeDebounceTimeout ''3000''] (onload example)) = Some 1000"
    by (simp_all add: run_def)
  have e: "timers (run [ChangeDebounceTimeout ''3000'', Modify (Some 1)] (onload example))
       = [(0, 1000, Some 1)]"
    by code_simp
  from a b c d e show ?thesis by (intro conjI) assumption+
qed

end
